theory Spec2Isabelle
  imports Main
begin

section \<open>The chat relay: connection, session and broadcast engine\<close>

text \<open>
  The three source files carry the same WebSocket engine; the variant with the launcher
  token check in front of it is the one embedded here.  A string of the program is a
  \<^typ>\<open>string\<close>: a list of code units, each below 256 (Latin-1 text), so that
  \<open>length\<close>, \<open>take\<close> and \<open>filter\<close> count what \<^verbatim>\<open>.length\<close>,
  \<^verbatim>\<open>.slice\<close> and \<^verbatim>\<open>.replace\<close> count there.

  A connection object is identified by a number, handed out in the order in which the
  sockets are accepted.  The clock and the \<^verbatim>\<open>readyState\<close> of the sockets belong to
  the environment: every event carries the time string that \<^verbatim>\<open>timestamp()\<close>
  returns while it is handled and the \<^verbatim>\<open>readyState\<close> of every socket at that moment.
\<close>

subsection \<open>Values received and frames sent\<close>

type_synonym conn = nat

text \<open>What \<^verbatim>\<open>JSON.parse\<close> returns. An object lists each of its keys once.\<close>

datatype json =
    JNull
  | JBool bool
  | JNum int
  | JStr string
  | JArr "json list"
  | JObj "(string \<times> json) list"

text \<open>An incoming frame: \<^verbatim>\<open>JSON.parse(raw)\<close> throws, or returns a value.\<close>

datatype payload = Unparseable | Parsed json

datatype error = TypeError

text \<open>The entries of \<^verbatim>\<open>chatHistory\<close>: the type tag and the fields of each object.\<close>

datatype hevent =
    System string string
  | Action string string string
  | Chat string string string

datatype frame =
    History "hevent list"
  | Event hevent
  | Users "string list"
  | Error string
  | Clear

datatype effect = Send conn frame | CloseSocket conn

datatype event =
    Issue string
  | Connect "string option"
  | Message conn payload string "conn \<Rightarrow> nat"
  | Close conn string "conn \<Rightarrow> nat"

record server =
  sessions :: "string set"
  clients :: "(conn \<times> string) list"
  chatHistory :: "hevent list"
  registered :: "conn set"
  listening :: "conn set"
  nextConn :: nat

definition MAX_HISTORY :: nat where
  "MAX_HISTORY = 200"

definition init :: server where
  "init = \<lparr>sessions = {}, clients = [], chatHistory = [], registered = {},
            listening = {}, nextConn = 0\<rparr>"

subsection \<open>JavaScript values\<close>

text \<open>
  Reading one of the properties \<^verbatim>\<open>type\<close>, \<^verbatim>\<open>username\<close>, \<^verbatim>\<open>text\<close>:
  on \<^verbatim>\<open>null\<close> the read throws, on an object it gives the value stored under the key
  or \<^verbatim>\<open>undefined\<close> (here \<open>None\<close>), on every other value it gives \<^verbatim>\<open>undefined\<close>.
\<close>

fun get_prop :: "json \<Rightarrow> string \<Rightarrow> error + json option" where
  "get_prop JNull k = Inl TypeError"
| "get_prop (JObj kvs) k = Inr (map_of kvs k)"
| "get_prop (JBool b) k = Inr None"
| "get_prop (JNum n) k = Inr None"
| "get_prop (JStr s) k = Inr None"
| "get_prop (JArr xs) k = Inr None"

fun truthy :: "json option \<Rightarrow> bool" where
  "truthy None = False"
| "truthy (Some JNull) = False"
| "truthy (Some (JBool b)) = b"
| "truthy (Some (JNum n)) = (n \<noteq> 0)"
| "truthy (Some (JStr s)) = (s \<noteq> [])"
| "truthy (Some (JArr xs)) = True"
| "truthy (Some (JObj kvs)) = True"

subsection \<open>Strings\<close>

definition in_range :: "char \<Rightarrow> nat \<Rightarrow> nat \<Rightarrow> bool" where
  "in_range c lo hi = (lo \<le> of_char c \<and> (of_char c :: nat) \<le> hi)"

text \<open>The class \<^verbatim>\<open>[a-zA-Z0-9_-]\<close>.\<close>

definition name_char :: "char \<Rightarrow> bool" where
  "name_char c = (in_range c 97 122 \<or> in_range c 65 90 \<or> in_range c 48 57
                  \<or> c = CHR ''_'' \<or> c = CHR ''-'')"

text \<open>\<^verbatim>\<open>.replace(/[^a-zA-Z0-9_-]/g, "").slice(0, 20)\<close>\<close>

definition sanitize :: "string \<Rightarrow> string" where
  "sanitize s = take 20 (filter name_char s)"

text \<open>
  \<^verbatim>\<open>toLowerCase\<close> on code units below 256: the letters A to Z and the capital letters
  from 192 to 222, the multiplication sign 215 apart, move up by 32.
\<close>

definition lower_char :: "char \<Rightarrow> char" where
  "lower_char c =
     (if in_range c 65 90 \<or> (in_range c 192 222 \<and> of_char c \<noteq> (215::nat))
      then char_of (of_char c + (32::nat)) else c)"

definition toLowerCase :: "string \<Rightarrow> string" where
  "toLowerCase s = map lower_char s"

text \<open>
  The white space and line terminators that \<^verbatim>\<open>trim\<close> removes, among the code units
  below 256: tab, line feed, vertical tab, form feed, carriage return, space and the
  no-break space.
\<close>

definition white :: "char \<Rightarrow> bool" where
  "white c = (in_range c 9 13 \<or> of_char c = (32::nat) \<or> of_char c = (160::nat))"

definition trim :: "string \<Rightarrow> string" where
  "trim s = rev (dropWhile white (rev (dropWhile white s)))"

text \<open>\<^verbatim>\<open>s.split(sep)\<close> for a separator of one code unit.\<close>

fun split :: "char \<Rightarrow> string \<Rightarrow> string list" where
  "split sep [] = [[]]"
| "split sep (c # cs) =
     (if c = sep then [] # split sep cs
      else (c # hd (split sep cs)) # tl (split sep cs))"

fun join :: "string \<Rightarrow> string list \<Rightarrow> string" where
  "join sep [] = []"
| "join sep [p] = p"
| "join sep (p # q # ps) = p @ sep @ join sep (q # ps)"

text \<open>The double quote, for the messages that put a name between quotes.\<close>

definition quote :: string where
  "quote = [CHR 0x22]"

text \<open>A number inside a template literal, in decimal.\<close>

fun show_nat :: "nat \<Rightarrow> string" where
  "show_nat n =
     (if n < 10 then [char_of (48 + n)]
      else show_nat (n div 10) @ [char_of (48 + n mod 10)])"

declare show_nat.simps [simp del]

subsection \<open>The Map of clients\<close>

text \<open>A \<^verbatim>\<open>Map\<close> keeps its keys in insertion order; setting a key it has keeps the place.\<close>

fun map_set :: "conn \<Rightarrow> string \<Rightarrow> (conn \<times> string) list \<Rightarrow> (conn \<times> string) list" where
  "map_set k v [] = [(k, v)]"
| "map_set k v ((k', v') # kvs) =
     (if k' = k then (k, v) # kvs else (k', v') # map_set k v kvs)"

definition map_delete :: "conn \<Rightarrow> (conn \<times> string) list \<Rightarrow> (conn \<times> string) list" where
  "map_delete k kvs = filter (\<lambda>kv. fst kv \<noteq> k) kvs"

definition userList :: "server \<Rightarrow> string list" where
  "userList s = map snd (clients s)"

text \<open>\<^verbatim>\<open>[...clients.values()].some((c) => c.username.toLowerCase() === name.toLowerCase())\<close>\<close>

definition taken :: "server \<Rightarrow> string \<Rightarrow> bool" where
  "taken s name = list_ex (\<lambda>kv. toLowerCase (snd kv) = toLowerCase name) (clients s)"

subsection \<open>History and broadcast\<close>

text \<open>\<^verbatim>\<open>chatHistory.push(e); if (chatHistory.length > MAX_HISTORY) chatHistory.shift();\<close>\<close>

definition push_shift :: "hevent list \<Rightarrow> hevent \<Rightarrow> hevent list" where
  "push_shift h e = (if length (h @ [e]) > MAX_HISTORY then tl (h @ [e]) else h @ [e])"

definition broadcast :: "(conn \<Rightarrow> nat) \<Rightarrow> server \<Rightarrow> frame \<Rightarrow> conn option \<Rightarrow> effect list" where
  "broadcast rs s data exclude =
     map (\<lambda>kv. Send (fst kv) data)
       (filter (\<lambda>kv. Some (fst kv) \<noteq> exclude \<and> rs (fst kv) = 1) (clients s))"

subsection \<open>The handlers\<close>

text \<open>\<^verbatim>\<open>(msg.username || "anon").replace(/[^a-zA-Z0-9_-]/g, "").slice(0, 20) || "anon"\<close>\<close>

definition join_username :: "json option \<Rightarrow> error + string" where
  "join_username u =
     (if truthy u then
        (case u of
           Some (JStr str) \<Rightarrow> Inr (if sanitize str = [] then ''anon'' else sanitize str)
         | _ \<Rightarrow> Inl TypeError)
      else Inr ''anon'')"

definition on_join :: "server \<Rightarrow> conn \<Rightarrow> json \<Rightarrow> string \<Rightarrow> (conn \<Rightarrow> nat)
    \<Rightarrow> error + server \<times> effect list" where
  "on_join s ws msg tm rs =
     (case get_prop msg ''username'' of
        Inl e \<Rightarrow> Inl e
      | Inr u \<Rightarrow>
         (case join_username u of
            Inl e \<Rightarrow> Inl e
          | Inr username \<Rightarrow>
             if taken s username then
               Inr (s, [Send ws (Error (''Username '' @ quote @ username @ quote
                                         @ '' is already taken.''))])
             else
               let s1 = s\<lparr>clients := map_set ws username (clients s),
                          registered := insert ws (registered s)\<rparr>;
                   joinMsg = System (username @ '' joined the room'') tm;
                   s2 = s1\<lparr>chatHistory := push_shift (chatHistory s1) joinMsg\<rparr>
               in Inr (s2, Send ws (History (chatHistory s1))
                           # broadcast rs s2 (Event joinMsg) None
                           @ broadcast rs s2 (Users (userList s2)) None)))"

definition on_nick :: "server \<Rightarrow> conn \<Rightarrow> string \<Rightarrow> string list \<Rightarrow> string \<Rightarrow> (conn \<Rightarrow> nat)
    \<Rightarrow> server \<times> effect list" where
  "on_nick s ws username parts tm rs =
     (let newName = sanitize (if 1 < length parts \<and> parts ! 1 \<noteq> [] then parts ! 1 else [])
      in if newName = [] then (s, [Send ws (Error ''Usage: /nick <newname>'')])
         else if taken s newName then
           (s, [Send ws (Error (quote @ newName @ quote @ '' is already taken.''))])
         else
           let oldName = username;
               s1 = s\<lparr>clients := map_set ws newName (clients s)\<rparr>;
               nickMsg = System (oldName @ '' is now known as '' @ newName) tm;
               s2 = s1\<lparr>chatHistory := push_shift (chatHistory s1) nickMsg\<rparr>
           in (s2, broadcast rs s2 (Event nickMsg) None
                   @ broadcast rs s2 (Users (userList s2)) None))"

definition on_command :: "server \<Rightarrow> conn \<Rightarrow> string \<Rightarrow> string \<Rightarrow> string \<Rightarrow> (conn \<Rightarrow> nat)
    \<Rightarrow> server \<times> effect list" where
  "on_command s ws username text tm rs =
     (let parts = split CHR '' '' text;
          cmd = toLowerCase (hd parts)
      in if cmd = ''/help'' then
           (s, [Send ws (Event (System
                  ''Commands: /help, /users, /me <action>, /nick <newname>, /clear'' tm))])
         else if cmd = ''/users'' then
           (s, [Send ws (Event (System
                  (''Online ('' @ show_nat (length (userList s)) @ ''): ''
                     @ join '', '' (userList s)) tm))])
         else if cmd = ''/me'' then
           let action = (if join '' '' (tl parts) = [] then ''...'' else join '' '' (tl parts));
               actionMsg = Action username (username @ '' '' @ action) tm;
               s1 = s\<lparr>chatHistory := push_shift (chatHistory s) actionMsg\<rparr>
           in (s1, broadcast rs s1 (Event actionMsg) None)
         else if cmd = ''/nick'' then on_nick s ws username parts tm rs
         else if cmd = ''/clear'' then (s, [Send ws Clear])
         else (s, [Send ws (Error (''Unknown command: '' @ cmd))]))"

definition on_chat :: "server \<Rightarrow> conn \<Rightarrow> string \<Rightarrow> string \<Rightarrow> (conn \<Rightarrow> nat)
    \<Rightarrow> error + server \<times> effect list" where
  "on_chat s ws msg_text tm rs =
     (case map_of (clients s) ws of
        None \<Rightarrow> Inl TypeError
      | Some username \<Rightarrow>
          let text = take 500 (trim msg_text)
          in if take 1 text = ''/'' then Inr (on_command s ws username text tm rs)
             else
               let chatMsg = Chat username text tm;
                   s1 = s\<lparr>chatHistory := push_shift (chatHistory s) chatMsg\<rparr>
               in Inr (s1, broadcast rs s1 (Event chatMsg) None))"

definition on_message :: "server \<Rightarrow> conn \<Rightarrow> payload \<Rightarrow> string \<Rightarrow> (conn \<Rightarrow> nat)
    \<Rightarrow> error + server \<times> effect list" where
  "on_message s ws raw tm rs =
     (case raw of
        Unparseable \<Rightarrow> Inr (s, [])
      | Parsed msg \<Rightarrow>
         (case get_prop msg ''type'' of
            Inl e \<Rightarrow> Inl e
          | Inr ty \<Rightarrow>
             if ty = Some (JStr ''join'') then on_join s ws msg tm rs
             else if ws \<notin> registered s then Inr (s, [])
             else if ty = Some (JStr ''chat'') then
               (case get_prop msg ''text'' of
                  Inl e \<Rightarrow> Inl e
                | Inr t \<Rightarrow>
                   if \<not> truthy t then Inr (s, [])
                   else (case t of
                           Some (JStr msg_text) \<Rightarrow>
                             if trim msg_text = [] then Inr (s, [])
                             else on_chat s ws msg_text tm rs
                         | _ \<Rightarrow> Inl TypeError))
             else Inr (s, [])))"

definition on_close :: "server \<Rightarrow> conn \<Rightarrow> string \<Rightarrow> (conn \<Rightarrow> nat)
    \<Rightarrow> error + server \<times> effect list" where
  "on_close s ws tm rs =
     (if ws \<in> registered s then
        (case map_of (clients s) ws of
           None \<Rightarrow> Inl TypeError
         | Some username \<Rightarrow>
            let s1 = s\<lparr>clients := map_delete ws (clients s)\<rparr>;
                leaveMsg = System (username @ '' left the room'') tm;
                s2 = s1\<lparr>chatHistory := push_shift (chatHistory s1) leaveMsg\<rparr>
            in Inr (s2, broadcast rs s2 (Event leaveMsg) None
                        @ broadcast rs s2 (Users (userList s2)) None))
      else Inr (s, []))"

text \<open>
  The connection handler. The token is what \<^verbatim>\<open>searchParams.get('token')\<close> gives:
  \<open>None\<close> for \<^verbatim>\<open>null\<close>. The test \<^verbatim>\<open>!token || !sessions.has(token)\<close> lets a
  token pass that is a non-empty string stored in \<^verbatim>\<open>sessions\<close>. A rejected socket gets
  no listener; an accepted one gets its own \<^verbatim>\<open>registered\<close> flag, false, and the two
  listeners.
\<close>

definition token_ok :: "server \<Rightarrow> string option \<Rightarrow> bool" where
  "token_ok s token =
     (case token of None \<Rightarrow> False | Some t \<Rightarrow> t \<noteq> [] \<and> t \<in> sessions s)"

definition on_connection :: "server \<Rightarrow> conn \<Rightarrow> string option \<Rightarrow> server \<times> effect list" where
  "on_connection s ws token =
     (if \<not> token_ok s token then
        (s, [Send ws (Error ''Auth required: must connect using launcher token''),
             CloseSocket ws])
      else (s\<lparr>registered := registered s - {ws}, listening := insert ws (listening s)\<rparr>, []))"

subsection \<open>The server as a transition system\<close>

text \<open>
  One event is handled to its end before the next. \<open>Issue\<close> is the gate storing a token
  it has made. A frame or a close reaches a handler only on a socket that has listeners,
  and the close of a socket is the last event that socket delivers. An exception that
  leaves a handler is not caught anywhere: the run ends with it.
\<close>

fun step :: "server \<Rightarrow> event \<Rightarrow> error + server \<times> effect list" where
  "step s (Issue token) = Inr (s\<lparr>sessions := insert token (sessions s)\<rparr>, [])"
| "step s (Connect token) =
     Inr (on_connection (s\<lparr>nextConn := Suc (nextConn s)\<rparr>) (nextConn s) token)"
| "step s (Message ws raw tm rs) =
     (if ws \<in> listening s then on_message s ws raw tm rs else Inr (s, []))"
| "step s (Close ws tm rs) =
     (if ws \<in> listening s then
        (case on_close s ws tm rs of
           Inl e \<Rightarrow> Inl e
         | Inr (s', out) \<Rightarrow> Inr (s'\<lparr>listening := listening s' - {ws}\<rparr>, out))
      else Inr (s, []))"

fun run :: "server \<Rightarrow> event list \<Rightarrow> error + server \<times> effect list" where
  "run s [] = Inr (s, [])"
| "run s (e # es) =
     (case step s e of
        Inl x \<Rightarrow> Inl x
      | Inr (s', out) \<Rightarrow>
         (case run s' es of
            Inl x \<Rightarrow> Inl x
          | Inr (s'', out') \<Rightarrow> Inr (s'', out @ out')))"

subsection \<open>Notions used in the statements\<close>

text \<open>Every socket open: \<^verbatim>\<open>readyState === 1\<close> everywhere.\<close>

definition all_open :: "conn \<Rightarrow> nat" where
  "all_open c = 1"

definition join_frame :: "string \<Rightarrow> payload" where
  "join_frame u = Parsed (JObj [(''type'', JStr ''join''), (''username'', JStr u)])"

definition chat_frame :: "string \<Rightarrow> payload" where
  "chat_frame t = Parsed (JObj [(''type'', JStr ''chat''), (''text'', JStr t)])"

text \<open>No two distinct registered connections hold names that are equal when lowercased.\<close>

definition names_unique :: "server \<Rightarrow> bool" where
  "names_unique s =
     (\<forall>kv\<in>set (clients s). \<forall>kv'\<in>set (clients s).
        fst kv \<noteq> fst kv' \<longrightarrow> toLowerCase (snd kv) \<noteq> toLowerCase (snd kv'))"

text \<open>The stronger form that every handler keeps: keys once, lowercased names once.\<close>

definition inv_names :: "server \<Rightarrow> bool" where
  "inv_names s = (distinct (map fst (clients s))
                  \<and> distinct (map (\<lambda>kv. toLowerCase (snd kv)) (clients s)))"

text \<open>A connection that has joined and not closed.\<close>

definition active :: "server \<Rightarrow> conn \<Rightarrow> bool" where
  "active s ws = (ws \<in> listening s \<and> ws \<in> registered s \<and> map_of (clients s) ws \<noteq> None)"

fun is_chat :: "hevent \<Rightarrow> bool" where
  "is_chat (Chat u t tm) = True"
| "is_chat (System m tm) = False"
| "is_chat (Action u m tm) = False"

text \<open>The text of a chat event is at most 500 code units long.\<close>

fun text_ok :: "hevent \<Rightarrow> bool" where
  "text_ok (Chat u t tm) = (length t \<le> 500)"
| "text_ok (System m tm) = True"
| "text_ok (Action u m tm) = True"

fun frame_ok :: "frame \<Rightarrow> bool" where
  "frame_ok (History h) = list_all text_ok h"
| "frame_ok (Event e) = text_ok e"
| "frame_ok (Users l) = True"
| "frame_ok (Error m) = True"
| "frame_ok Clear = True"

fun effect_ok :: "effect \<Rightarrow> bool" where
  "effect_ok (Send c f) = frame_ok f"
| "effect_ok (CloseSocket c) = True"

text \<open>What one handler does to the history: nothing, or one append of an event
  whose text is within the limit.\<close>

definition hist_step :: "hevent list \<Rightarrow> hevent list \<Rightarrow> bool" where
  "hist_step h h' = (h' = h \<or> (\<exists>ev. text_ok ev \<and> h' = push_shift h ev))"

fun carries_chat :: "effect \<Rightarrow> bool" where
  "carries_chat (Send c (Event e)) = is_chat e"
| "carries_chat (Send c (History h)) = list_ex is_chat h"
| "carries_chat (Send c (Users l)) = False"
| "carries_chat (Send c (Error m)) = False"
| "carries_chat (Send c Clear) = False"
| "carries_chat (CloseSocket c) = False"


fun target :: "effect \<Rightarrow> conn" where
  "target (Send c f) = c"
| "target (CloseSocket c) = c"

text \<open>The five commands, and the first white-space separated token of a text.\<close>

definition commands :: "string list" where
  "commands = [''/help'', ''/users'', ''/me'', ''/nick'', ''/clear'']"

definition first_token :: "string \<Rightarrow> string" where
  "first_token t = takeWhile (\<lambda>c. \<not> white c) t"

text \<open>
  The name test in the words of the specification: held, up to case, by a participant
  other than the sender.
\<close>

definition taken_by_other :: "server \<Rightarrow> conn \<Rightarrow> string \<Rightarrow> bool" where
  "taken_by_other s ws name =
     list_ex (\<lambda>kv. fst kv \<noteq> ws \<and> toLowerCase (snd kv) = toLowerCase name) (clients s)"

text \<open>The frames that can change the name of the connection they arrive on.\<close>

definition is_join :: "payload \<Rightarrow> bool" where
  "is_join raw =
     (case raw of
        Unparseable \<Rightarrow> False
      | Parsed msg \<Rightarrow> get_prop msg ''type'' = Inr (Some (JStr ''join'')))"

definition is_nick :: "payload \<Rightarrow> bool" where
  "is_nick raw =
     (case raw of
        Unparseable \<Rightarrow> False
      | Parsed msg \<Rightarrow>
          get_prop msg ''type'' = Inr (Some (JStr ''chat''))
          \<and> (case get_prop msg ''text'' of
                Inr (Some (JStr t)) \<Rightarrow>
                  toLowerCase (hd (split CHR '' '' (take 500 (trim t)))) = ''/nick''
              | _ \<Rightarrow> False))"






subsection \<open>Notions used in the proofs\<close>

text \<open>The connections that have an entry in the Map.\<close>

definition keys_of :: "(conn \<times> string) list \<Rightarrow> conn set" where
  "keys_of kvs = fst ` set kvs"

text \<open>A message or close handler leaves the token store, the listeners and the count of
  accepted sockets alone.\<close>

definition same_env :: "server \<Rightarrow> server \<Rightarrow> bool" where
  "same_env s s' = (sessions s' = sessions s \<and> listening s' = listening s
                    \<and> nextConn s' = nextConn s)"

text \<open>Every effect in the list is aimed at a connection of the set.\<close>

definition sent_within :: "conn set \<Rightarrow> effect list \<Rightarrow> bool" where
  "sent_within K out = list_all (\<lambda>ef. target ef \<in> K) out"

text \<open>
  What holds of the connections in every state the server reaches: a connection in the
  registry has listeners and its flag \<^verbatim>\<open>registered\<close> set, and every connection
  with listeners was accepted earlier.
\<close>

definition conn_inv :: "server \<Rightarrow> bool" where
  "conn_inv s = (keys_of (clients s) \<subseteq> listening s
                  \<and> keys_of (clients s) \<subseteq> registered s
                  \<and> (\<forall>c\<in>listening s. c < nextConn s))"

text \<open>A message handler leaves flags and registry keys alone, or registers its own
  connection in both.\<close>

definition keys_step :: "conn \<Rightarrow> server \<Rightarrow> server \<Rightarrow> bool" where
  "keys_step ws s s' =
     ((registered s' = registered s \<and> keys_of (clients s') = keys_of (clients s))
      \<or> (registered s' = insert ws (registered s)
          \<and> keys_of (clients s') = insert ws (keys_of (clients s))))"

text \<open>An accepted socket without listeners: rejected at the handshake, or closed.\<close>

definition dead :: "server \<Rightarrow> conn \<Rightarrow> bool" where
  "dead s c = (c < nextConn s \<and> c \<notin> listening s)"

text \<open>What a command does to the history: nothing, or one append of an event that is
  not a chat event.\<close>

definition no_chat_step :: "hevent list \<Rightarrow> hevent list \<Rightarrow> bool" where
  "no_chat_step h h' = (h' = h \<or> (\<exists>e. \<not> is_chat e \<and> h' = push_shift h e))"

text \<open>
  Broadcasts and appends go together: an event frame that reaches a connection other
  than \<open>ws\<close> carries the one appended event, and an appended event is sent to every
  registered connection whose socket is open.
\<close>

definition tied :: "conn \<Rightarrow> (conn \<Rightarrow> nat) \<Rightarrow> server \<Rightarrow> effect list \<Rightarrow> hevent list \<Rightarrow> bool" where
  "tied ws rs s' out evs =
     ((\<forall>c ev. c \<noteq> ws \<longrightarrow> Send c (Event ev) \<in> set out \<longrightarrow> evs = [ev])
      \<and> (\<forall>ev. evs = [ev] \<longrightarrow>
            (\<forall>c\<in>keys_of (clients s'). rs c = 1 \<longrightarrow> Send c (Event ev) \<in> set out)))"




section \<open>Properties\<close>

subsection \<open>Evaluation\<close>

lemmas eval_defs =
  init_def token_ok_def on_connection_def on_message_def on_join_def on_chat_def on_command_def
  on_nick_def on_close_def join_username_def taken_def broadcast_def userList_def
  push_shift_def MAX_HISTORY_def sanitize_def name_char_def in_range_def toLowerCase_def
  lower_char_def trim_def white_def map_delete_def quote_def all_open_def join_frame_def
  chat_frame_def char_of_def bit_0 Let_def

subsection \<open>The Map of clients and the names in it\<close>

lemma set_map_set: "set (map_set k v kvs) \<subseteq> insert (k, v) (set kvs)"
  by (induction kvs) (auto split: if_splits)

lemma fst_set_map_set: "fst ` set (map_set k v kvs) = insert k (fst ` set kvs)"
  by (induction k v kvs rule: map_set.induct) (simp_all add: insert_commute)

lemma distinct_fst_map_set:
  "distinct (map fst kvs) \<Longrightarrow> distinct (map fst (map_set k v kvs))"
  by (induction kvs) (auto simp: fst_set_map_set)

lemma distinct_val_map_set:
  "distinct (map (\<lambda>kv. f (snd kv)) kvs) \<Longrightarrow> f v \<notin> (\<lambda>kv. f (snd kv)) ` set kvs
   \<Longrightarrow> distinct (map (\<lambda>kv. f (snd kv)) (map_set k v kvs))"
proof (induction kvs)
  case Nil
  then show ?case by simp
next
  case (Cons a kvs)
  have "(\<lambda>kv. f (snd kv)) ` set (map_set k v kvs) \<subseteq> insert (f v) ((\<lambda>kv. f (snd kv)) ` set kvs)"
    using set_map_set [of k v kvs] by auto
  with Cons show ?case by (cases a) auto
qed

lemma taken_iff:
  "taken s name \<longleftrightarrow> toLowerCase name \<in> (\<lambda>kv. toLowerCase (snd kv)) ` set (clients s)"
  by (force simp: taken_def list_ex_iff)

lemma inv_names_map_set:
  "inv_names s \<Longrightarrow> \<not> taken s name \<Longrightarrow> inv_names (s\<lparr>clients := map_set ws name (clients s)\<rparr>)"
  by (simp add: inv_names_def taken_iff distinct_fst_map_set distinct_val_map_set)

lemma inv_names_map_delete:
  "inv_names s \<Longrightarrow> inv_names (s\<lparr>clients := map_delete ws (clients s)\<rparr>)"
  by (simp add: inv_names_def map_delete_def distinct_map_filter)

lemma inv_names_cong:
  "clients s' = clients s \<Longrightarrow> inv_names s' = inv_names s"
  by (simp add: inv_names_def)

lemma on_join_clients:
  "on_join s ws msg tm rs = Inr (s', out) \<Longrightarrow>
   clients s' = clients s \<or> (\<exists>name. \<not> taken s name \<and> clients s' = map_set ws name (clients s))"
  by (auto simp: on_join_def Let_def split: sum.splits if_splits)

lemma on_nick_clients:
  "on_nick s ws u parts tm rs = (s', out) \<Longrightarrow>
   clients s' = clients s \<or> (\<exists>name. \<not> taken s name \<and> clients s' = map_set ws name (clients s))"
  by (auto simp: on_nick_def Let_def split: if_splits)

lemma on_command_clients:
  "on_command s ws u text tm rs = (s', out) \<Longrightarrow>
   clients s' = clients s \<or> (\<exists>name. \<not> taken s name \<and> clients s' = map_set ws name (clients s))"
  unfolding on_command_def Let_def
  by (auto split: if_splits dest: on_nick_clients)

lemma on_chat_clients:
  "on_chat s ws t tm rs = Inr (s', out) \<Longrightarrow>
   clients s' = clients s \<or> (\<exists>name. \<not> taken s name \<and> clients s' = map_set ws name (clients s))"
  unfolding on_chat_def Let_def
  by (auto split: if_splits option.splits dest: on_command_clients)

lemma on_message_clients:
  "on_message s ws raw tm rs = Inr (s', out) \<Longrightarrow>
   clients s' = clients s \<or> (\<exists>name. \<not> taken s name \<and> clients s' = map_set ws name (clients s))"
  unfolding on_message_def
  by (auto split: payload.splits sum.splits if_splits option.splits json.splits
           dest: on_join_clients on_chat_clients)

lemma on_close_clients:
  "on_close s ws tm rs = Inr (s', out) \<Longrightarrow>
   clients s' = clients s \<or> clients s' = map_delete ws (clients s)"
  by (auto simp: on_close_def Let_def split: if_splits option.splits)

lemma step_clients:
  "step s e = Inr (s', out) \<Longrightarrow>
   clients s' = clients s
   \<or> (\<exists>ws name. \<not> taken s name \<and> clients s' = map_set ws name (clients s))
   \<or> (\<exists>ws. clients s' = map_delete ws (clients s))"
proof (cases e)
  case (Issue t)
  assume "step s e = Inr (s', out)"
  with Issue show ?thesis by auto
next
  case (Connect t)
  assume "step s e = Inr (s', out)"
  with Connect show ?thesis by (auto simp: on_connection_def split: if_splits)
next
  case (Message ws raw tm rs)
  assume "step s e = Inr (s', out)"
  with Message show ?thesis using on_message_clients [of s ws raw tm rs s' out]
    by (auto split: if_splits)
next
  case (Close ws tm rs)
  assume "step s e = Inr (s', out)"
  with Close show ?thesis
    by (auto split: if_splits sum.splits dest!: on_close_clients)
qed

lemma step_inv_names:
  assumes "step s e = Inr (s', out)" "inv_names s"
  shows "inv_names s'"
proof -
  from step_clients [OF assms(1)] consider
      "clients s' = clients s"
    | ws name where "\<not> taken s name" "clients s' = map_set ws name (clients s)"
    | ws where "clients s' = map_delete ws (clients s)"
    by blast
  then show ?thesis
  proof cases
    case 1
    then show ?thesis using assms(2) by (simp add: inv_names_def)
  next
    case 2
    then show ?thesis using inv_names_map_set [OF assms(2) 2(1), of ws]
      by (simp add: inv_names_def)
  next
    case 3
    then show ?thesis using inv_names_map_delete [OF assms(2), of ws]
      by (simp add: inv_names_def)
  qed
qed

lemma run_inv_names:
  "run s es = Inr (s', out) \<Longrightarrow> inv_names s \<Longrightarrow> inv_names s'"
proof (induction es arbitrary: s out)
  case Nil
  then show ?case by simp
next
  case (Cons e es)
  from Cons.prems(1) obtain s1 o1 o2 where
    st: "step s e = Inr (s1, o1)" and rn: "run s1 es = Inr (s', o2)"
    by (auto split: sum.splits)
  from step_inv_names [OF st Cons.prems(2)] Cons.IH [OF rn] show ?case by simp
qed

lemma inv_names_unique: "inv_names s \<Longrightarrow> names_unique s"
  unfolding inv_names_def names_unique_def
  by (metis (mono_tags, lifting) distinct_map inj_on_def prod.collapse)

subsection \<open>The history buffer\<close>

lemma push_shift_length:
  "length h \<le> MAX_HISTORY \<Longrightarrow> length (push_shift h e) \<le> MAX_HISTORY"
  by (simp add: push_shift_def)

lemma push_shift_full:
  "length h = MAX_HISTORY \<Longrightarrow> push_shift h e = tl h @ [e]"
  by (cases h) (simp_all add: push_shift_def MAX_HISTORY_def)

lemma push_shift_room:
  "length h < MAX_HISTORY \<Longrightarrow> push_shift h e = h @ [e]"
  by (simp add: push_shift_def)

lemma foldl_push_shift:
  "length h \<le> MAX_HISTORY \<Longrightarrow>
   foldl push_shift h es = drop (length h + length es - MAX_HISTORY) (h @ es)"
proof (induction es arbitrary: h)
  case Nil
  then show ?case by simp
next
  case (Cons e es)
  have len: "length (push_shift h e) \<le> MAX_HISTORY"
    using Cons.prems by (rule push_shift_length)
  have unfold: "foldl push_shift h (e # es) = foldl push_shift (push_shift h e) es"
    by simp
  show ?case
  proof (cases "length h = MAX_HISTORY")
    case True
    then obtain x h' where h: "h = x # h'" and l': "length h' + 1 = MAX_HISTORY"
      by (cases h) (auto simp: MAX_HISTORY_def)
    have ps: "push_shift h e = h' @ [e]"
      using push_shift_full [OF True, of e] by (simp add: h)
    have "foldl push_shift (h' @ [e]) es
          = drop (length (h' @ [e]) + length es - MAX_HISTORY) ((h' @ [e]) @ es)"
      using Cons.IH [of "h' @ [e]"] len by (simp only: ps)
    also have "\<dots> = drop (length es) (h' @ e # es)"
      using l' by simp
    also have "\<dots> = drop (length h + length (e # es) - MAX_HISTORY) (h @ e # es)"
      using l' by (simp add: h)
    finally show ?thesis by (simp only: unfold ps)
  next
    case False
    with Cons.prems have lt: "length h < MAX_HISTORY" by simp
    have ps: "push_shift h e = h @ [e]" using lt by (rule push_shift_room)
    have "foldl push_shift (h @ [e]) es
          = drop (length (h @ [e]) + length es - MAX_HISTORY) ((h @ [e]) @ es)"
      using Cons.IH [of "h @ [e]"] len by (simp only: ps)
    also have "\<dots> = drop (length h + length (e # es) - MAX_HISTORY) (h @ e # es)"
      by simp
    finally show ?thesis by (simp only: unfold ps)
  qed
qed


lemma foldl_push_shift_201:
  "length es = Suc MAX_HISTORY \<Longrightarrow> foldl push_shift [] es = tl es"
  by (simp add: foldl_push_shift drop_Suc)

subsection \<open>What one event does to the history and what it sends\<close>

lemma hist_step_refl: "hist_step h h"
  by (simp add: hist_step_def)

lemma hist_step_push: "text_ok ev \<Longrightarrow> hist_step h (push_shift h ev)"
  by (auto simp: hist_step_def)

lemma on_join_hist:
  "on_join s ws msg tm rs = Inr (s', out) \<Longrightarrow> hist_step (chatHistory s) (chatHistory s')"
  by (auto simp: on_join_def Let_def hist_step_refl hist_step_push split: sum.splits if_splits)

lemma on_nick_hist:
  "on_nick s ws u parts tm rs = (s', out) \<Longrightarrow> hist_step (chatHistory s) (chatHistory s')"
  by (auto simp: on_nick_def Let_def hist_step_refl hist_step_push split: if_splits)

lemma on_command_hist:
  "on_command s ws u text tm rs = (s', out) \<Longrightarrow> hist_step (chatHistory s) (chatHistory s')"
  unfolding on_command_def Let_def
  by (auto simp: hist_step_refl hist_step_push split: if_splits dest: on_nick_hist)

lemma on_chat_hist:
  "on_chat s ws t tm rs = Inr (s', out) \<Longrightarrow> hist_step (chatHistory s) (chatHistory s')"
  unfolding on_chat_def Let_def
  by (auto simp: hist_step_refl hist_step_push split: if_splits option.splits
           dest: on_command_hist)

lemma on_message_hist:
  "on_message s ws raw tm rs = Inr (s', out) \<Longrightarrow> hist_step (chatHistory s) (chatHistory s')"
  unfolding on_message_def
  by (auto simp: hist_step_refl split: payload.splits sum.splits if_splits option.splits json.splits
           dest: on_join_hist on_chat_hist)

lemma on_close_hist:
  "on_close s ws tm rs = Inr (s', out) \<Longrightarrow> hist_step (chatHistory s) (chatHistory s')"
  by (auto simp: on_close_def Let_def hist_step_refl hist_step_push split: if_splits option.splits)

lemma step_hist:
  assumes "step s e = Inr (s', out)"
  shows "hist_step (chatHistory s) (chatHistory s')"
proof (cases e)
  case (Issue t)
  with assms show ?thesis by (auto simp: hist_step_refl)
next
  case (Connect t)
  with assms show ?thesis by (auto simp: on_connection_def hist_step_refl split: if_splits)
next
  case (Message ws raw tm rs)
  with assms show ?thesis using on_message_hist [of s ws raw tm rs s' out]
    by (auto simp: hist_step_refl split: if_splits)
next
  case (Close ws tm rs)
  with assms show ?thesis
    by (auto simp: hist_step_refl split: if_splits sum.splits dest!: on_close_hist)
qed

lemma hist_step_length:
  "hist_step h h' \<Longrightarrow> length h \<le> MAX_HISTORY \<Longrightarrow> length h' \<le> MAX_HISTORY"
  by (auto simp: hist_step_def push_shift_def)

lemma list_all_tl: "list_all P xs \<Longrightarrow> list_all P (tl xs)"
  by (cases xs) simp_all

lemma hist_step_ok:
  "hist_step h h' \<Longrightarrow> list_all text_ok h \<Longrightarrow> list_all text_ok h'"
proof -
  assume hs: "hist_step h h'" and ok: "list_all text_ok h"
  show ?thesis
  proof (cases "h' = h")
    case True
    with ok show ?thesis by simp
  next
    case False
    with hs obtain ev where ev: "text_ok ev" and h': "h' = push_shift h ev"
      by (auto simp: hist_step_def)
    from ok ev have all: "list_all text_ok (h @ [ev])" by simp
    from all list_all_tl [OF all] show ?thesis by (simp add: h' push_shift_def)
  qed
qed

lemma run_hist:
  "run s es = Inr (s', out) \<Longrightarrow> length (chatHistory s) \<le> MAX_HISTORY
   \<Longrightarrow> length (chatHistory s') \<le> MAX_HISTORY"
proof (induction es arbitrary: s out)
  case Nil
  then show ?case by simp
next
  case (Cons e es)
  from Cons.prems(1) obtain s1 o1 o2 where
    st: "step s e = Inr (s1, o1)" and rn: "run s1 es = Inr (s', o2)"
    by (auto split: sum.splits)
  from hist_step_length [OF step_hist [OF st] Cons.prems(2)] Cons.IH [OF rn]
  show ?case by simp
qed

lemma broadcast_ok: "frame_ok f \<Longrightarrow> list_all effect_ok (broadcast rs s f x)"
  by (simp add: broadcast_def list_all_iff)

lemma on_join_ok:
  "on_join s ws msg tm rs = Inr (s', out) \<Longrightarrow> list_all text_ok (chatHistory s)
   \<Longrightarrow> list_all effect_ok out"
  by (auto simp: on_join_def Let_def broadcast_ok split: sum.splits if_splits)

lemma on_nick_ok:
  "on_nick s ws u parts tm rs = (s', out) \<Longrightarrow> list_all effect_ok out"
  by (auto simp: on_nick_def Let_def broadcast_ok split: if_splits)

lemma on_command_ok:
  "on_command s ws u text tm rs = (s', out) \<Longrightarrow> list_all effect_ok out"
  unfolding on_command_def Let_def
  by (auto simp: broadcast_ok split: if_splits dest: on_nick_ok)

lemma on_chat_ok:
  "on_chat s ws t tm rs = Inr (s', out) \<Longrightarrow> list_all effect_ok out"
  unfolding on_chat_def Let_def
  by (auto simp: broadcast_ok split: if_splits option.splits dest: on_command_ok)

lemma on_message_ok:
  "on_message s ws raw tm rs = Inr (s', out) \<Longrightarrow> list_all text_ok (chatHistory s)
   \<Longrightarrow> list_all effect_ok out"
  unfolding on_message_def
  by (auto split: payload.splits sum.splits if_splits option.splits json.splits
           dest: on_join_ok on_chat_ok)

lemma on_close_ok:
  "on_close s ws tm rs = Inr (s', out) \<Longrightarrow> list_all effect_ok out"
  by (auto simp: on_close_def Let_def broadcast_ok split: if_splits option.splits)

lemma step_ok:
  assumes "step s e = Inr (s', out)" "list_all text_ok (chatHistory s)"
  shows "list_all effect_ok out"
proof (cases e)
  case (Issue t)
  with assms show ?thesis by auto
next
  case (Connect t)
  with assms show ?thesis by (auto simp: on_connection_def split: if_splits)
next
  case (Message ws raw tm rs)
  with assms show ?thesis using on_message_ok [of s ws raw tm rs s' out]
    by (auto split: if_splits)
next
  case (Close ws tm rs)
  with assms show ?thesis
    by (auto split: if_splits sum.splits dest!: on_close_ok)
qed

lemma run_ok:
  "run s es = Inr (s', out) \<Longrightarrow> list_all text_ok (chatHistory s)
   \<Longrightarrow> list_all text_ok (chatHistory s') \<and> list_all effect_ok out"
proof (induction es arbitrary: s out)
  case Nil
  then show ?case by simp
next
  case (Cons e es)
  from Cons.prems(1) obtain s1 o1 o2 where
    st: "step s e = Inr (s1, o1)" and rn: "run s1 es = Inr (s', o2)" and out: "out = o1 @ o2"
    by (auto split: sum.splits)
  have h1: "list_all text_ok (chatHistory s1)"
    using hist_step_ok [OF step_hist [OF st] Cons.prems(2)] .
  from step_ok [OF st Cons.prems(2)] Cons.IH [OF rn h1] out
  show ?case by simp
qed

subsection \<open>Connections, listeners and the sockets that are sent to\<close>

lemma keys_map_set: "keys_of (map_set k v kvs) = insert k (keys_of kvs)"
  by (simp add: keys_of_def fst_set_map_set)

lemma keys_map_delete: "keys_of (map_delete k kvs) = keys_of kvs - {k}"
  by (auto simp: keys_of_def map_delete_def)

lemma map_of_keys: "map_of kvs k = Some v \<Longrightarrow> k \<in> keys_of kvs"
  unfolding keys_of_def by (metis domI dom_map_of_conv_image_fst)

lemma same_env_refl: "same_env s s"
  by (simp add: same_env_def)

lemma broadcast_within:
  "keys_of (clients s) \<subseteq> K \<Longrightarrow> sent_within K (broadcast rs s f x)"
  by (auto simp: broadcast_def sent_within_def list_all_iff keys_of_def)

lemma sent_within_simps:
  "sent_within K []"
  "sent_within K (ef # out) = (target ef \<in> K \<and> sent_within K out)"
  "sent_within K (out @ out') = (sent_within K out \<and> sent_within K out')"
  by (simp_all add: sent_within_def)

lemma on_join_env:
  "on_join s ws msg tm rs = Inr (s', out) \<Longrightarrow>
   same_env s s' \<and> sent_within (insert ws (keys_of (clients s'))) out"
  by (auto simp: on_join_def Let_def same_env_def sent_within_simps keys_map_set keys_map_delete intro!: broadcast_within 
           split: sum.splits if_splits)

lemma on_nick_env:
  "on_nick s ws u parts tm rs = (s', out) \<Longrightarrow>
   same_env s s' \<and> sent_within (insert ws (keys_of (clients s'))) out"
  by (auto simp: on_nick_def Let_def same_env_def sent_within_simps keys_map_set keys_map_delete intro!: broadcast_within 
           split: if_splits)

lemma on_command_env:
  "on_command s ws u text tm rs = (s', out) \<Longrightarrow>
   same_env s s' \<and> sent_within (insert ws (keys_of (clients s'))) out"
  unfolding on_command_def Let_def
  by (auto simp: same_env_def sent_within_simps keys_map_set keys_map_delete intro!: broadcast_within split: if_splits
           dest!: on_nick_env)

lemma on_chat_env:
  "on_chat s ws t tm rs = Inr (s', out) \<Longrightarrow>
   same_env s s' \<and> sent_within (insert ws (keys_of (clients s'))) out"
  unfolding on_chat_def Let_def
  by (auto simp: same_env_def sent_within_simps keys_map_set keys_map_delete intro!: broadcast_within split: if_splits option.splits
      dest!: on_command_env)

lemma on_message_env:
  "on_message s ws raw tm rs = Inr (s', out) \<Longrightarrow>
   same_env s s' \<and> sent_within (insert ws (keys_of (clients s'))) out"
  unfolding on_message_def
  by (auto simp: same_env_refl sent_within_simps
           split: payload.splits sum.splits if_splits option.splits json.splits
           dest!: on_join_env on_chat_env)

lemma on_close_env:
  "on_close s ws tm rs = Inr (s', out) \<Longrightarrow>
   same_env s s' \<and> sent_within (insert ws (keys_of (clients s'))) out"
  by (auto simp: on_close_def Let_def same_env_def sent_within_simps keys_map_set keys_map_delete intro!: broadcast_within
       split: if_splits option.splits)

lemma keys_step_refl: "keys_step ws s s"
  by (simp add: keys_step_def)

lemma keys_step_hist: "keys_step ws s (s\<lparr>chatHistory := h\<rparr>)"
  by (simp add: keys_step_def)

lemma on_join_keys:
  "on_join s ws msg tm rs = Inr (s', out) \<Longrightarrow> keys_step ws s s'"
  by (auto simp: on_join_def Let_def keys_step_def keys_map_set split: sum.splits if_splits)

lemma on_nick_keys:
  "on_nick s ws u parts tm rs = (s', out) \<Longrightarrow> map_of (clients s) ws = Some u
   \<Longrightarrow> keys_step ws s s'"
  by (auto simp: on_nick_def Let_def keys_step_def keys_map_set insert_absorb
           split: if_splits dest: map_of_keys)

lemma on_command_keys:
  "on_command s ws u text tm rs = (s', out) \<Longrightarrow> map_of (clients s) ws = Some u
   \<Longrightarrow> keys_step ws s s'"
  unfolding on_command_def Let_def
  by (auto simp: keys_step_refl keys_step_hist split: if_splits dest: on_nick_keys)

lemma on_chat_keys:
  "on_chat s ws t tm rs = Inr (s', out) \<Longrightarrow> keys_step ws s s'"
  unfolding on_chat_def Let_def
  by (auto simp: keys_step_refl keys_step_hist split: if_splits option.splits
           dest: on_command_keys)

lemma on_message_keys:
  "on_message s ws raw tm rs = Inr (s', out) \<Longrightarrow> keys_step ws s s'"
  unfolding on_message_def
  by (auto simp: keys_step_refl
           split: payload.splits sum.splits if_splits option.splits json.splits
           dest: on_join_keys on_chat_keys)

lemma on_close_keys:
  "on_close s ws tm rs = Inr (s', out) \<Longrightarrow>
   registered s' = registered s
   \<and> ((ws \<notin> registered s \<and> clients s' = clients s)
        \<or> keys_of (clients s') = keys_of (clients s) - {ws})"
  by (auto simp: on_close_def Let_def keys_map_delete split: if_splits option.splits)

lemma conn_inv_message:
  assumes "conn_inv s" "same_env s s'" "keys_step ws s s'" "ws \<in> listening s"
  shows "conn_inv s'"
proof -
  from assms(2) have l: "listening s' = listening s" and n: "nextConn s' = nextConn s"
    by (simp_all add: same_env_def)
  from assms(1) have k: "keys_of (clients s) \<subseteq> listening s"
    and r: "keys_of (clients s) \<subseteq> registered s"
    and b: "\<forall>c\<in>listening s. c < nextConn s"
    by (simp_all add: conn_inv_def)
  from assms(3) consider
      "registered s' = registered s" "keys_of (clients s') = keys_of (clients s)"
    | "registered s' = insert ws (registered s)"
      "keys_of (clients s') = insert ws (keys_of (clients s))"
    unfolding keys_step_def by blast
  then show ?thesis
  proof cases
    case 1
    with k r b show ?thesis by (simp add: conn_inv_def l n)
  next
    case 2
    with k r b assms(4) show ?thesis by (simp add: conn_inv_def l n subset_insertI2)
  qed
qed

lemma conn_inv_close:
  assumes "conn_inv s" "same_env s s1" "registered s1 = registered s"
    "(ws \<notin> registered s \<and> clients s1 = clients s)
      \<or> keys_of (clients s1) = keys_of (clients s) - {ws}"
  shows "conn_inv (s1\<lparr>listening := listening s1 - {ws}\<rparr>)"
proof -
  from assms(2) have l: "listening s1 = listening s" and n: "nextConn s1 = nextConn s"
    by (simp_all add: same_env_def)
  from assms(1) have k: "keys_of (clients s) \<subseteq> listening s"
    and r: "keys_of (clients s) \<subseteq> registered s"
    and b: "\<forall>c\<in>listening s. c < nextConn s"
    by (simp_all add: conn_inv_def)
  from assms(4) r have "ws \<notin> keys_of (clients s1)" by auto
  moreover from assms(4) have "keys_of (clients s1) \<subseteq> keys_of (clients s)" by auto
  ultimately have "keys_of (clients s1) \<subseteq> listening s - {ws}" using k by blast
  moreover have "keys_of (clients s1) \<subseteq> registered s" 
    using \<open>keys_of (clients s1) \<subseteq> keys_of (clients s)\<close> r by blast
  ultimately show ?thesis using b by (simp add: conn_inv_def l n assms(3))
qed

lemma conn_inv_connect:
  assumes "conn_inv s"
  shows "conn_inv (fst (on_connection (s\<lparr>nextConn := Suc (nextConn s)\<rparr>) (nextConn s) t))"
proof -
  from assms have k: "keys_of (clients s) \<subseteq> listening s"
    and r: "keys_of (clients s) \<subseteq> registered s"
    and b: "\<forall>c\<in>listening s. c < nextConn s"
    by (simp_all add: conn_inv_def)
  from k b have "nextConn s \<notin> keys_of (clients s)" by blast
  with r have r': "keys_of (clients s) \<subseteq> registered s - {nextConn s}" by blast
  from b have b': "\<forall>c\<in>listening s. c < Suc (nextConn s)" by (simp add: less_Suc_eq)
  from k r r' b' show ?thesis
    by (simp add: on_connection_def conn_inv_def subset_insertI2)
qed

lemma step_conn_inv:
  assumes "step s e = Inr (s', out)" "conn_inv s"
  shows "conn_inv s'"
proof (cases e)
  case (Issue t)
  with assms(1) have "s' = s\<lparr>sessions := insert t (sessions s)\<rparr>" by simp
  with assms(2) show ?thesis by (simp add: conn_inv_def)
next
  case (Connect t)
  with assms(1) have "s' = fst (on_connection (s\<lparr>nextConn := Suc (nextConn s)\<rparr>) (nextConn s) t)"
    by simp
  with conn_inv_connect [OF assms(2), of t] show ?thesis by simp
next
  case (Message ws raw tm rs)
  show ?thesis
  proof (cases "ws \<in> listening s")
    case True
    with Message assms(1) have m: "on_message s ws raw tm rs = Inr (s', out)" by simp
    from on_message_env [OF m] on_message_keys [OF m] assms(2) True
    show ?thesis by (simp add: conn_inv_message)
  next
    case False
    with Message assms show ?thesis by simp
  qed
next
  case (Close ws tm rs)
  show ?thesis
  proof (cases "ws \<in> listening s")
    case True
    with Close assms(1) obtain s1 where c: "on_close s ws tm rs = Inr (s1, out)"
      and s': "s' = s1\<lparr>listening := listening s1 - {ws}\<rparr>"
      by (auto split: sum.splits)
    from on_close_env [OF c] on_close_keys [OF c] assms(2)
    show ?thesis unfolding s' by (simp add: conn_inv_close)
  next
    case False
    with Close assms show ?thesis by simp
  qed
qed

lemma sent_within_mono: "sent_within K out \<Longrightarrow> K \<subseteq> K' \<Longrightarrow> sent_within K' out"
  by (auto simp: sent_within_def list_all_iff)

lemma dead_connect:
  assumes "dead s c"
  shows "dead (fst (on_connection (s\<lparr>nextConn := Suc (nextConn s)\<rparr>) (nextConn s) t)) c
         \<and> sent_within (- {c}) (snd (on_connection (s\<lparr>nextConn := Suc (nextConn s)\<rparr>) (nextConn s) t))"
  using assms by (simp add: dead_def on_connection_def sent_within_simps)

lemma step_dead:
  assumes "step s e = Inr (s', out)" "conn_inv s" "dead s c"
  shows "dead s' c \<and> sent_within (- {c}) out"
proof (cases e)
  case (Issue t)
  with assms(1) have "s' = s\<lparr>sessions := insert t (sessions s)\<rparr>" "out = []" by simp_all
  with assms(3) show ?thesis by (simp add: dead_def sent_within_simps)
next
  case (Connect t)
  with assms(1) have "(s', out) = on_connection (s\<lparr>nextConn := Suc (nextConn s)\<rparr>) (nextConn s) t"
    by simp
  then have "s' = fst (on_connection (s\<lparr>nextConn := Suc (nextConn s)\<rparr>) (nextConn s) t)"
    "out = snd (on_connection (s\<lparr>nextConn := Suc (nextConn s)\<rparr>) (nextConn s) t)"
    by (metis fst_conv, metis snd_conv)
  with dead_connect [OF assms(3), of t] show ?thesis by simp
next
  case (Message ws raw tm rs)
  show ?thesis
  proof (cases "ws \<in> listening s")
    case True
    with Message assms(1) have m: "on_message s ws raw tm rs = Inr (s', out)" by simp
    from step_conn_inv [OF assms(1,2)] have k': "keys_of (clients s') \<subseteq> listening s'"
      by (simp add: conn_inv_def)
    from on_message_env [OF m] have l: "listening s' = listening s"
      and n: "nextConn s' = nextConn s"
      and w: "sent_within (insert ws (keys_of (clients s'))) out"
      by (simp_all add: same_env_def)
    from k' l True assms(3) have "insert ws (keys_of (clients s')) \<subseteq> - {c}"
      by (auto simp: dead_def)
    with w have "sent_within (- {c}) out" by (rule sent_within_mono)
    with assms(3) show ?thesis by (simp add: dead_def l n)
  next
    case False
    with Message assms show ?thesis by (simp add: sent_within_simps)
  qed
next
  case (Close ws tm rs)
  show ?thesis
  proof (cases "ws \<in> listening s")
    case True
    with Close assms(1) obtain s1 where c: "on_close s ws tm rs = Inr (s1, out)"
      and s': "s' = s1\<lparr>listening := listening s1 - {ws}\<rparr>"
      by (auto split: sum.splits)
    from on_close_env [OF c] have l: "listening s1 = listening s"
      and n: "nextConn s1 = nextConn s"
      and w: "sent_within (insert ws (keys_of (clients s1))) out"
      by (simp_all add: same_env_def)
    from step_conn_inv [OF assms(1,2)] have "keys_of (clients s1) \<subseteq> listening s1 - {ws}"
      by (simp add: conn_inv_def s')
    with l True assms(3) have "insert ws (keys_of (clients s1)) \<subseteq> - {c}"
      by (auto simp: dead_def)
    with w have "sent_within (- {c}) out" by (rule sent_within_mono)
    with assms(3) show ?thesis by (simp add: dead_def l n s')
  next
    case False
    with Close assms show ?thesis by (simp add: sent_within_simps)
  qed
qed

lemma step_sessions:
  assumes "step s e = Inr (s', out)"
  shows "sessions s \<subseteq> sessions s'"
proof (cases e)
  case (Issue t)
  with assms show ?thesis by auto
next
  case (Connect t)
  with assms show ?thesis by (auto simp: on_connection_def split: if_splits)
next
  case (Message ws raw tm rs)
  show ?thesis
  proof (cases "ws \<in> listening s")
    case True
    with Message assms(1) have m: "on_message s ws raw tm rs = Inr (s', out)" by simp
    from on_message_env [OF m] show ?thesis by (simp add: same_env_def)
  next
    case False
    with Message assms show ?thesis by simp
  qed
next
  case (Close ws tm rs)
  show ?thesis
  proof (cases "ws \<in> listening s")
    case True
    with Close assms(1) obtain s1 where c: "on_close s ws tm rs = Inr (s1, out)"
      and s': "s' = s1\<lparr>listening := listening s1 - {ws}\<rparr>"
      by (auto split: sum.splits)
    from on_close_env [OF c] show ?thesis by (simp add: same_env_def s')
  next
    case False
    with Close assms show ?thesis by simp
  qed
qed

lemma run_conn_inv:
  "run s es = Inr (s', out) \<Longrightarrow> conn_inv s \<Longrightarrow> conn_inv s'"
proof (induction es arbitrary: s out)
  case Nil
  then show ?case by simp
next
  case (Cons e es)
  from Cons.prems(1) obtain s1 o1 o2 where
    st: "step s e = Inr (s1, o1)" and rn: "run s1 es = Inr (s', o2)"
    by (auto split: sum.splits)
  from step_conn_inv [OF st Cons.prems(2)] Cons.IH [OF rn] show ?case by simp
qed

lemma run_dead:
  "run s es = Inr (s', out) \<Longrightarrow> conn_inv s \<Longrightarrow> dead s c
   \<Longrightarrow> dead s' c \<and> sent_within (- {c}) out"
proof (induction es arbitrary: s out)
  case Nil
  then show ?case by (simp add: sent_within_simps)
next
  case (Cons e es)
  from Cons.prems(1) obtain s1 o1 o2 where
    st: "step s e = Inr (s1, o1)" and rn: "run s1 es = Inr (s', o2)" and out: "out = o1 @ o2"
    by (auto split: sum.splits)
  from step_dead [OF st Cons.prems(2,3)] have d1: "dead s1 c" and w1: "sent_within (- {c}) o1"
    by simp_all
  from Cons.IH [OF rn step_conn_inv [OF st Cons.prems(2)] d1] w1 out
  show ?case by (simp add: sent_within_simps)
qed

lemma run_sessions:
  "run s es = Inr (s', out) \<Longrightarrow> sessions s \<subseteq> sessions s'"
proof (induction es arbitrary: s out)
  case Nil
  then show ?case by simp
next
  case (Cons e es)
  from Cons.prems(1) obtain s1 o1 o2 where
    st: "step s e = Inr (s1, o1)" and rn: "run s1 es = Inr (s', o2)"
    by (auto split: sum.splits)
  from step_sessions [OF st] Cons.IH [OF rn] show ?case by blast
qed


subsection \<open>Strings, tokens and commands\<close>

lemma no_chat_step_refl: "no_chat_step h h"
  by (simp add: no_chat_step_def)

lemma no_chat_step_push: "\<not> is_chat e \<Longrightarrow> no_chat_step h (push_shift h e)"
  by (auto simp: no_chat_step_def)

lemma split_nonempty: "split sep s \<noteq> []"
  by (induction s) simp_all

lemma hd_split: "hd (split sep s) = takeWhile (\<lambda>c. c \<noteq> sep) s"
  by (induction s) simp_all

lemma split_no_sep: "sep \<notin> set s \<Longrightarrow> split sep s = [s]"
  by (induction s) auto

lemma of_char_lower:
  "(of_char (lower_char c) :: nat) =
     (if in_range c 65 90 \<or> (in_range c 192 222 \<and> of_char c \<noteq> (215::nat))
      then of_char c + 32 else of_char c)"
  by (auto simp: lower_char_def in_range_def)

lemma lower_char_white: "white (lower_char c) = white c"
  by (auto simp: white_def in_range_def of_char_lower)

lemma lower_char_slash: "lower_char c = CHR ''/'' \<longleftrightarrow> c = CHR ''/''"
proof
  assume "lower_char c = CHR ''/''"
  then have "(of_char (lower_char c) :: nat) = of_char (CHR ''/'')" by simp
  then have "(of_char c :: nat) = of_char (CHR ''/'')"
    by (simp add: of_char_lower in_range_def split: if_splits)
  then show "c = CHR ''/''" by (simp only: of_char_eq_iff)
next
  assume "c = CHR ''/''"
  then show "lower_char c = CHR ''/''" by (simp add: lower_char_def in_range_def)
qed

lemma white_space: "white CHR '' ''"
  by (simp add: white_def in_range_def)

lemma command_shape:
  assumes "toLowerCase p \<in> set commands"
  shows "(\<forall>c\<in>set p. \<not> white c) \<and> length p \<le> 6"
proof -
  have w: "\<forall>c\<in>set (toLowerCase p). \<not> white c"
    using assms by (auto simp: commands_def white_def in_range_def)
  have "\<forall>c\<in>set p. \<not> white c"
  proof
    fix c assume "c \<in> set p"
    then have "lower_char c \<in> set (toLowerCase p)" by (simp add: toLowerCase_def)
    with w have "\<not> white (lower_char c)" by blast
    then show "\<not> white c" by (simp add: lower_char_white)
  qed
  moreover have "length (toLowerCase p) \<le> 6" using assms by (auto simp: commands_def)
  then have "length p \<le> 6" by (simp add: toLowerCase_def)
  ultimately show ?thesis by simp
qed

lemma takeWhile_nonwhite:
  "takeWhile (\<lambda>c. c \<noteq> CHR '' '') xs = ys \<Longrightarrow> \<forall>c\<in>set ys. \<not> white c
   \<Longrightarrow> takeWhile (\<lambda>c. \<not> white c) xs = ys"
proof (induction xs arbitrary: ys)
  case Nil
  then show ?case by simp
next
  case (Cons x xs)
  show ?case
  proof (cases "x = CHR '' ''")
    case True
    with Cons.prems(1) show ?thesis by (simp add: white_space)
  next
    case False
    with Cons.prems(1) have ys: "ys = x # takeWhile (\<lambda>c. c \<noteq> CHR '' '') xs" by simp
    with Cons.prems(2) have nx: "\<not> white x"
      and rest: "\<forall>c\<in>set (takeWhile (\<lambda>c. c \<noteq> CHR '' '') xs). \<not> white c" by simp_all
    from Cons.IH [OF refl rest] nx ys show ?thesis by simp
  qed
qed

lemma take_takeWhile_comm: "take n (takeWhile P xs) = takeWhile P (take n xs)"
proof (induction xs arbitrary: n)
  case Nil
  then show ?case by simp
next
  case (Cons x xs)
  then show ?case by (cases n) simp_all
qed

lemma take_short: "length (take n xs) < n \<Longrightarrow> take n xs = xs"
  by (simp add: min_def split: if_splits)

lemma takeWhile_space_extends:
  "\<exists>rest. takeWhile (\<lambda>c. c \<noteq> CHR '' '') xs = takeWhile (\<lambda>c. \<not> white c) xs @ rest"
proof (induction xs)
  case Nil
  then show ?case by simp
next
  case (Cons x xs)
  then show ?case using white_space by (cases "white x") auto
qed

lemma unknown_command:
  assumes "toLowerCase (first_token tt) \<notin> set commands"
  shows "toLowerCase (hd (split CHR '' '' (take 500 tt))) \<notin> set commands"
proof
  let ?p = "takeWhile (\<lambda>c. c \<noteq> CHR '' '') (take 500 tt)"
  assume "toLowerCase (hd (split CHR '' '' (take 500 tt))) \<in> set commands"
  then have m: "toLowerCase ?p \<in> set commands" by (simp add: hd_split)
  from command_shape [OF m] have nw: "\<forall>c\<in>set ?p. \<not> white c" and len: "length ?p \<le> 6"
    by simp_all
  from takeWhile_nonwhite [OF refl nw]
  have "take 500 (first_token tt) = ?p"
    by (simp add: first_token_def take_takeWhile_comm)
  moreover from this len have "take 500 (first_token tt) = first_token tt"
    by (intro take_short) simp
  ultimately have "first_token tt = ?p" by simp
  with m assms show False by simp
qed

lemma command_names_token:
  "\<exists>rest. toLowerCase (hd (split CHR '' '' (take 500 tt)))
           = toLowerCase (take 500 (first_token tt)) @ rest"
proof -
  from takeWhile_space_extends [of "take 500 tt"] obtain rest where
    "takeWhile (\<lambda>c. c \<noteq> CHR '' '') (take 500 tt)
       = takeWhile (\<lambda>c. \<not> white c) (take 500 tt) @ rest" ..
  then have "toLowerCase (hd (split CHR '' '' (take 500 tt)))
      = toLowerCase (take 500 (first_token tt)) @ toLowerCase rest"
    by (simp add: hd_split first_token_def take_takeWhile_comm toLowerCase_def)
  then show ?thesis ..
qed

lemma on_command_unknown:
  "toLowerCase (hd (split CHR '' '' text)) \<notin> set commands \<Longrightarrow>
   on_command s ws u text tm rs
     = (s, [Send ws (Error (''Unknown command: '' @ toLowerCase (hd (split CHR '' '' text))))])"
  by (simp add: on_command_def commands_def Let_def)

lemma broadcast_no_chat:
  "\<not> carries_chat (Send 0 f) \<Longrightarrow> filter carries_chat (broadcast rs s f x) = []"
  by (cases f) (auto simp: broadcast_def filter_empty_conv)

lemma on_nick_no_chat:
  "on_nick s ws u parts tm rs = (s', out) \<Longrightarrow>
   filter carries_chat out = [] \<and> no_chat_step (chatHistory s) (chatHistory s')"
  by (auto simp: on_nick_def Let_def broadcast_no_chat no_chat_step_refl no_chat_step_push
           split: if_splits)

lemma on_command_no_chat:
  "on_command s ws u text tm rs = (s', out) \<Longrightarrow>
   filter carries_chat out = [] \<and> no_chat_step (chatHistory s) (chatHistory s')"
  unfolding on_command_def Let_def
  by (auto simp: broadcast_no_chat no_chat_step_refl no_chat_step_push split: if_splits
           dest!: on_nick_no_chat)

lemma chat_frame_step:
  assumes "active s ws"
    and "get_prop msg ''type'' = Inr (Some (JStr ''chat''))"
    and "get_prop msg ''text'' = Inr (Some (JStr t))"
    and "trim t \<noteq> []"
  shows "step s (Message ws (Parsed msg) tm rs) = on_chat s ws t tm rs"
proof -
  from assms(4) have "t \<noteq> []" by (auto simp: trim_def)
  with assms show ?thesis by (simp add: active_def on_message_def)
qed


subsection \<open>Renaming\<close>

lemma map_of_map_set_other: "k' \<noteq> k \<Longrightarrow> map_of (map_set k v kvs) k' = map_of kvs k'"
  by (induction k v kvs rule: map_set.induct) simp_all

lemma map_of_map_delete_other: "k' \<noteq> k \<Longrightarrow> map_of (map_delete k kvs) k' = map_of kvs k'"
  by (induction kvs) (auto simp: map_delete_def)

lemma command_slash:
  "toLowerCase (hd (split CHR '' '' text)) = CHR ''/'' # r \<Longrightarrow> take 1 text = ''/''"
proof (cases "text")
  case Nil
  assume "toLowerCase (hd (split CHR '' '' text)) = CHR ''/'' # r"
  with Nil show ?thesis by (simp add: toLowerCase_def)
next
  case (Cons x xs)
  assume a: "toLowerCase (hd (split CHR '' '' text)) = CHR ''/'' # r"
  show ?thesis
  proof (cases "x = CHR '' ''")
    case True
    with a Cons show ?thesis by (simp add: toLowerCase_def)
  next
    case False
    with a Cons have "lower_char x = CHR ''/''" by (simp add: toLowerCase_def)
    then have "x = CHR ''/''" by (simp only: lower_char_slash)
    with Cons show ?thesis by simp
  qed
qed

lemma error_not_broadcast:
  "f \<noteq> Error m \<Longrightarrow> Send c (Error m) \<notin> set (broadcast rs s f x)"
  by (auto simp: broadcast_def)

lemma on_command_nick:
  "toLowerCase (hd (split CHR '' '' text)) = ''/nick'' \<Longrightarrow>
   on_command s ws u text tm rs = on_nick s ws u (split CHR '' '' text) tm rs"
  by (simp add: on_command_def Let_def)

lemma on_command_rename:
  "on_command s ws u text tm rs = (s', out) \<Longrightarrow>
   clients s' = clients s
   \<or> (toLowerCase (hd (split CHR '' '' text)) = ''/nick''
       \<and> (\<exists>n. \<not> taken s n \<and> clients s' = map_set ws n (clients s)))"
  unfolding on_command_def Let_def
  by (auto split: if_splits dest: on_nick_clients)

lemma on_chat_rename:
  "on_chat s ws t tm rs = Inr (s', out) \<Longrightarrow>
   clients s' = clients s
   \<or> (toLowerCase (hd (split CHR '' '' (take 500 (trim t)))) = ''/nick''
       \<and> (\<exists>n. \<not> taken s n \<and> clients s' = map_set ws n (clients s)))"
  unfolding on_chat_def Let_def
  by (auto split: if_splits option.splits dest: on_command_rename)

lemma on_message_rename:
  "on_message s ws raw tm rs = Inr (s', out) \<Longrightarrow>
   clients s' = clients s
   \<or> ((is_join raw \<or> is_nick raw)
       \<and> (\<exists>n. \<not> taken s n \<and> clients s' = map_set ws n (clients s)))"
  unfolding on_message_def is_join_def is_nick_def
  by (auto split: payload.splits sum.splits if_splits option.splits json.splits
           dest: on_join_clients on_chat_rename)


subsection \<open>Further facts about the handlers\<close>

lemma map_of_map_set: "map_of (map_set k v kvs) k = Some v"
  by (induction k v kvs rule: map_set.induct) simp_all


lemma conn_inv_init: "conn_inv init"
  by (simp add: conn_inv_def init_def keys_of_def)

lemma conn_inv_next: "conn_inv s \<Longrightarrow> conn_inv (s\<lparr>nextConn := Suc (nextConn s)\<rparr>)"
  by (auto simp: conn_inv_def less_Suc_eq)

lemma dead_next: "conn_inv s \<Longrightarrow> dead (s\<lparr>nextConn := Suc (nextConn s)\<rparr>) (nextConn s)"
  by (auto simp: conn_inv_def dead_def)

lemma dead_not_key: "conn_inv s \<Longrightarrow> dead s c \<Longrightarrow> c \<notin> fst ` set (clients s)"
  by (auto simp: conn_inv_def dead_def keys_of_def)

lemma active_name: "active s ws \<Longrightarrow> \<exists>u. map_of (clients s) ws = Some u"
  by (auto simp: active_def)

lemma broadcast_hist: "broadcast rs (s\<lparr>chatHistory := h\<rparr>) f x = broadcast rs s f x"
  by (simp add: broadcast_def)

lemma trim_solid:
  "s \<noteq> [] \<Longrightarrow> \<not> white (hd s) \<Longrightarrow> \<not> white (last s) \<Longrightarrow> trim s = s"
proof -
  assume ne: "s \<noteq> []" and h: "\<not> white (hd s)" and l: "\<not> white (last s)"
  from ne h have d: "dropWhile white s = s" by (cases s) simp_all
  from ne l have "dropWhile white (rev s) = rev s"
    by (cases "rev s") (simp_all add: last_rev [symmetric] hd_rev)
  then show ?thesis by (simp add: trim_def d)
qed

lemma long_text: "trim (replicate 501 CHR ''x'') = replicate 501 CHR ''x''"
  by (rule trim_solid) (simp_all add: white_def in_range_def)

lemma long_cmd: "trim (CHR ''/'' # replicate 500 CHR ''x'') = CHR ''/'' # replicate 500 CHR ''x''"
  by (rule trim_solid) (simp_all add: white_def in_range_def)

lemma map_of_map_delete_same: "map_of (map_delete k kvs) k = None"
  by (induction kvs) (auto simp: map_delete_def)

lemma on_close_removes:
  "ws \<in> registered s \<Longrightarrow> map_of (clients s) ws = Some name \<Longrightarrow>
   \<exists>s1 out. on_close s ws tm rs = Inr (s1, out) \<and> clients s1 = map_delete ws (clients s)"
  by (simp add: on_close_def Let_def)

subsection \<open>Appends, broadcasts and history frames\<close>




lemma userList_hist: "userList (s\<lparr>chatHistory := h\<rparr>) = userList s"
  by (simp add: userList_def)






lemma tied_clients: "clients s'' = clients s' \<Longrightarrow> tied ws rs s'' out evs = tied ws rs s' out evs"
  by (simp add: tied_def)





























section \<open>The claims\<close>

subsection \<open>C1\<close>

text \<open>
  C1. Starting from the empty registry, after every sequence of token issues, connections,
  frames (first joins, further joins on an active connection, /nick and all others) and
  closes that the server survives, no two distinct registered connections hold display
  names that are equal when lowercased.
\<close>

theorem C1_names_unique:
  "run init es = Inr (s, out) \<Longrightarrow> names_unique s"
proof -
  assume r: "run init es = Inr (s, out)"
  have "inv_names init" by (simp add: inv_names_def init_def)
  with r have "inv_names s" by (rule run_inv_names)
  then show ?thesis by (rule inv_names_unique)
qed

theorem C1_names_unique_witness:
  "run init [Issue ''tok'', Connect (Some ''tok''), Connect (Some ''tok''),
      Message 0 (join_frame ''Alice'') ''09:00:00'' all_open,
      Message 1 (join_frame ''alice'') ''09:00:01'' all_open,
      Message 1 (join_frame ''bob'') ''09:00:02'' all_open,
      Message 1 (chat_frame ''/nick ALICE'') ''09:00:03'' all_open]
   = Inr (\<lparr>sessions = {''tok''}, clients = [(0, ''Alice''), (1, ''bob'')],
           chatHistory = [System ''Alice joined the room'' ''09:00:00'',
                          System ''bob joined the room'' ''09:00:02''],
           registered = {1, 0}, listening = {1, 0}, nextConn = 2\<rparr>,
          [Send 0 (History []),
           Send 0 (Event (System ''Alice joined the room'' ''09:00:00'')),
           Send 0 (Users [''Alice'']),
           Send 1 (Error (''Username '' @ quote @ ''alice'' @ quote @ '' is already taken.'')),
           Send 1 (History [System ''Alice joined the room'' ''09:00:00'']),
           Send 0 (Event (System ''bob joined the room'' ''09:00:02'')),
           Send 1 (Event (System ''bob joined the room'' ''09:00:02'')),
           Send 0 (Users [''Alice'', ''bob'']),
           Send 1 (Users [''Alice'', ''bob'']),
           Send 1 (Error (quote @ ''ALICE'' @ quote @ '' is already taken.''))])
   \<and> names_unique \<lparr>sessions = {''tok''}, clients = [(0, ''Alice''), (1, ''bob'')],
           chatHistory = [System ''Alice joined the room'' ''09:00:00'',
                          System ''bob joined the room'' ''09:00:02''],
           registered = {1, 0}, listening = {1, 0}, nextConn = 2\<rparr>"
proof -
  have r: "run init [Issue ''tok'', Connect (Some ''tok''), Connect (Some ''tok''),
      Message 0 (join_frame ''Alice'') ''09:00:00'' all_open,
      Message 1 (join_frame ''alice'') ''09:00:01'' all_open,
      Message 1 (join_frame ''bob'') ''09:00:02'' all_open,
      Message 1 (chat_frame ''/nick ALICE'') ''09:00:03'' all_open]
   = Inr (\<lparr>sessions = {''tok''}, clients = [(0, ''Alice''), (1, ''bob'')],
           chatHistory = [System ''Alice joined the room'' ''09:00:00'',
                          System ''bob joined the room'' ''09:00:02''],
           registered = {1, 0}, listening = {1, 0}, nextConn = 2\<rparr>,
          [Send 0 (History []),
           Send 0 (Event (System ''Alice joined the room'' ''09:00:00'')),
           Send 0 (Users [''Alice'']),
           Send 1 (Error (''Username '' @ quote @ ''alice'' @ quote @ '' is already taken.'')),
           Send 1 (History [System ''Alice joined the room'' ''09:00:00'']),
           Send 0 (Event (System ''bob joined the room'' ''09:00:02'')),
           Send 1 (Event (System ''bob joined the room'' ''09:00:02'')),
           Send 0 (Users [''Alice'', ''bob'']),
           Send 1 (Users [''Alice'', ''bob'']),
           Send 1 (Error (quote @ ''ALICE'' @ quote @ '' is already taken.''))])"
    by (simp add: eval_defs)
  from r C1_names_unique [OF r] show ?thesis by simp
qed

subsection \<open>C2\<close>

text \<open>
  C2. The history buffer is a bounded queue of capacity 200. An append to a buffer within
  the bound leaves it within the bound; an append to a buffer of 200 entries drops
  exactly its oldest entry and keeps the others in their order, the new one last; after
  201 appends to the empty buffer the first event is gone and the 2nd to the 201st are
  there in order. Every event the server handles (join, leave, rename, /me, plain chat and
  all others) leaves the buffer as it was or makes one such append, so at every moment
  of every run the buffer holds at most 200 entries.
\<close>

theorem C2_history_bounded_fifo:
  "MAX_HISTORY = 200
   \<and> (length h \<le> MAX_HISTORY \<longrightarrow> length (push_shift h e) \<le> MAX_HISTORY)
   \<and> (length h = MAX_HISTORY \<longrightarrow> push_shift h e = tl h @ [e])
   \<and> (length es = Suc MAX_HISTORY \<longrightarrow> foldl push_shift [] es = tl es)
   \<and> (step s ev = Inr (s', out) \<longrightarrow>
        chatHistory s' = chatHistory s \<or> (\<exists>x. chatHistory s' = push_shift (chatHistory s) x))
   \<and> (run init evs = Inr (t, out') \<longrightarrow> length (chatHistory t) \<le> MAX_HISTORY)"
proof (intro conjI impI)
  show "MAX_HISTORY = 200" by (rule MAX_HISTORY_def)
  show "length (push_shift h e) \<le> MAX_HISTORY" if "length h \<le> MAX_HISTORY"
    using that by (rule push_shift_length)
  show "push_shift h e = tl h @ [e]" if "length h = MAX_HISTORY"
    using that by (rule push_shift_full)
  show "foldl push_shift [] es = tl es" if "length es = Suc MAX_HISTORY"
    using that by (rule foldl_push_shift_201)
  show "chatHistory s' = chatHistory s \<or> (\<exists>x. chatHistory s' = push_shift (chatHistory s) x)"
    if "step s ev = Inr (s', out)"
    using step_hist [OF that] by (auto simp: hist_step_def)
  show "length (chatHistory t) \<le> MAX_HISTORY" if "run init evs = Inr (t, out')"
    using run_hist [OF that] by (simp add: init_def)
qed

theorem C2_history_bounded_fifo_witness:
  "length (replicate 200 (System ''a'' ''09:00:00'')) = MAX_HISTORY
   \<and> length (push_shift (replicate 200 (System ''a'' ''09:00:00'')) (System ''b'' ''09:00:01''))
       \<le> MAX_HISTORY
   \<and> push_shift (replicate 200 (System ''a'' ''09:00:00'')) (System ''b'' ''09:00:01'')
       = replicate 199 (System ''a'' ''09:00:00'') @ [System ''b'' ''09:00:01'']
   \<and> length (System ''a'' ''09:00:00'' # replicate 200 (System ''b'' ''09:00:01'')) = Suc MAX_HISTORY
   \<and> foldl push_shift [] (System ''a'' ''09:00:00'' # replicate 200 (System ''b'' ''09:00:01''))
       = replicate 200 (System ''b'' ''09:00:01'')
   \<and> step \<lparr>sessions = {''tok''}, clients = [], chatHistory = [], registered = {},
             listening = {0}, nextConn = 1\<rparr>
          (Message 0 (join_frame ''bob'') ''09:00:00'' all_open)
       = Inr (\<lparr>sessions = {''tok''}, clients = [(0, ''bob'')],
               chatHistory = [System ''bob joined the room'' ''09:00:00''],
               registered = {0}, listening = {0}, nextConn = 1\<rparr>,
              [Send 0 (History []),
               Send 0 (Event (System ''bob joined the room'' ''09:00:00'')),
               Send 0 (Users [''bob''])])
   \<and> [System ''bob joined the room'' ''09:00:00'']
       = push_shift [] (System ''bob joined the room'' ''09:00:00'')
   \<and> run init [Issue ''tok'', Connect (Some ''tok''),
                 Message 0 (join_frame ''bob'') ''09:00:00'' all_open]
       = Inr (\<lparr>sessions = {''tok''}, clients = [(0, ''bob'')],
               chatHistory = [System ''bob joined the room'' ''09:00:00''],
               registered = {0}, listening = {0}, nextConn = 1\<rparr>,
              [Send 0 (History []),
               Send 0 (Event (System ''bob joined the room'' ''09:00:00'')),
               Send 0 (Users [''bob''])])
   \<and> length [System ''bob joined the room'' ''09:00:00''] \<le> MAX_HISTORY"
proof -
  let ?a = "System ''a'' ''09:00:00''" and ?b = "System ''b'' ''09:00:01''"
  let ?s0 = "\<lparr>sessions = {''tok''}, clients = [], chatHistory = [], registered = {},
               listening = {0}, nextConn = 1\<rparr>"
  let ?s1 = "\<lparr>sessions = {''tok''}, clients = [(0, ''bob'')],
               chatHistory = [System ''bob joined the room'' ''09:00:00''],
               registered = {0}, listening = {0}, nextConn = 1\<rparr>"
  let ?out = "[Send 0 (History []),
               Send 0 (Event (System ''bob joined the room'' ''09:00:00'')),
               Send 0 (Users [''bob''])]"
  let ?evs = "[Issue ''tok'', Connect (Some ''tok''),
               Message 0 (join_frame ''bob'') ''09:00:00'' all_open]"
  have l1: "length (replicate 200 ?a) = MAX_HISTORY" by (simp add: MAX_HISTORY_def)
  have l2: "length (?a # replicate 200 ?b) = Suc MAX_HISTORY" by (simp add: MAX_HISTORY_def)
  have st: "step ?s0 (Message 0 (join_frame ''bob'') ''09:00:00'' all_open) = Inr (?s1, ?out)"
    by (simp add: eval_defs)
  have rn: "run init ?evs = Inr (?s1, ?out)"
    by (simp add: eval_defs)
  have tl: "tl (replicate 200 ?a) = replicate 199 ?a"
    by (simp add: tl_replicate)
  from C2_history_bounded_fifo [of "replicate 200 ?a" ?b "?a # replicate 200 ?b"
         ?s0 "Message 0 (join_frame ''bob'') ''09:00:00'' all_open" ?s1 ?out ?evs ?s1 ?out]
       l1 l2 st rn tl
  show ?thesis by (simp add: push_shift_def MAX_HISTORY_def)
qed

subsection \<open>C3\<close>




subsection \<open>C4\<close>

text \<open>
  C4, as stated, fails: an active connection named alice that sends /nick alice gets the
  taken error although no other participant holds the name.
\<close>

theorem C4_counterexample:
  "sanitize ''alice'' = ''alice''
   \<and> run init [Issue ''tok'', Connect (Some ''tok''),
             Message 0 (join_frame ''alice'') ''09:00:00'' all_open]
     = Inr (\<lparr>sessions = {''tok''}, clients = [(0, ''alice'')],
             chatHistory = [System ''alice joined the room'' ''09:00:00''],
             registered = {0}, listening = {0}, nextConn = 1\<rparr>,
            [Send 0 (History []),
             Send 0 (Event (System ''alice joined the room'' ''09:00:00'')),
             Send 0 (Users [''alice''])])
   \<and> step \<lparr>sessions = {''tok''}, clients = [(0, ''alice'')],
             chatHistory = [System ''alice joined the room'' ''09:00:00''],
             registered = {0}, listening = {0}, nextConn = 1\<rparr>
          (Message 0 (chat_frame ''/nick alice'') ''09:00:01'' all_open)
     = Inr (\<lparr>sessions = {''tok''}, clients = [(0, ''alice'')],
             chatHistory = [System ''alice joined the room'' ''09:00:00''],
             registered = {0}, listening = {0}, nextConn = 1\<rparr>,
            [Send 0 (Error (quote @ ''alice'' @ quote @ '' is already taken.''))])
   \<and> \<not> taken_by_other \<lparr>sessions = {''tok''}, clients = [(0, ''alice'')],
             chatHistory = [System ''alice joined the room'' ''09:00:00''],
             registered = {0}, listening = {0}, nextConn = 1\<rparr> 0 ''alice''"
  by (simp add: eval_defs taken_by_other_def)

text \<open>
  C4, as the code has it. An active sender issues /nick with a new name that is not empty
  after sanitization. The taken error is sent, to the sender alone and with the state
  unchanged, if and only if some participant, the sender included, holds a name equal to
  the new one up to case; otherwise the sender's entry gets the new name. So a
  participant asking for its own current name, or a case variant of it, is refused.
\<close>

theorem C4_nick_taken_by_anyone:
  assumes "active s ws"
    and "get_prop msg ''type'' = Inr (Some (JStr ''chat''))"
    and "get_prop msg ''text'' = Inr (Some (JStr t))"
    and "parts = split CHR '' '' (take 500 (trim t))"
    and "toLowerCase (hd parts) = ''/nick''"
    and "newName = sanitize (if 1 < length parts then parts ! 1 else [])"
    and "newName \<noteq> []"
  shows "\<exists>s' out. step s (Message ws (Parsed msg) tm rs) = Inr (s', out)
           \<and> (Send ws (Error (quote @ newName @ quote @ '' is already taken.'')) \<in> set out)
               = (\<exists>kv\<in>set (clients s). toLowerCase (snd kv) = toLowerCase newName)
           \<and> ((\<exists>kv\<in>set (clients s). toLowerCase (snd kv) = toLowerCase newName) \<longrightarrow>
                 s' = s
                 \<and> out = [Send ws (Error (quote @ newName @ quote @ '' is already taken.''))])
           \<and> (\<not> (\<exists>kv\<in>set (clients s). toLowerCase (snd kv) = toLowerCase newName) \<longrightarrow>
                 map_of (clients s') ws = Some newName)"
proof -
  from active_name [OF assms(1)] obtain u where u: "map_of (clients s) ws = Some u" ..
  have cmd: "toLowerCase (hd (split CHR '' '' (take 500 (trim t)))) = ''/nick''"
    using assms(4,5) by simp
  from command_slash [OF cmd] have sl: "take 1 (take 500 (trim t)) = ''/''" .
  then have ne: "trim t \<noteq> []" by auto
  have tk: "taken s newName = (\<exists>kv\<in>set (clients s). toLowerCase (snd kv) = toLowerCase newName)"
    by (simp add: taken_def list_ex_iff)
  have arg: "sanitize (if 1 < length parts \<and> parts ! 1 \<noteq> [] then parts ! 1 else []) = newName"
    using assms(6) by auto
  have st: "step s (Message ws (Parsed msg) tm rs) = Inr (on_nick s ws u parts tm rs)"
    using chat_frame_step [OF assms(1-3) ne, of tm rs] u sl on_command_nick [OF cmd, of s ws u tm rs]
    by (simp add: on_chat_def Let_def assms(4))
  show ?thesis
  proof (cases "taken s newName")
    case True
    then have "on_nick s ws u parts tm rs
        = (s, [Send ws (Error (quote @ newName @ quote @ '' is already taken.''))])"
      using assms(7) arg by (simp add: on_nick_def Let_def)
    with st True show ?thesis by (simp add: tk [symmetric])
  next
    case False
    let ?s1 = "s\<lparr>clients := map_set ws newName (clients s)\<rparr>"
    let ?ev = "System (u @ '' is now known as '' @ newName) tm"
    let ?s2 = "?s1\<lparr>chatHistory := push_shift (chatHistory ?s1) ?ev\<rparr>"
    let ?out = "broadcast rs ?s2 (Event ?ev) None @ broadcast rs ?s2 (Users (userList ?s2)) None"
    have "on_nick s ws u parts tm rs = (?s2, ?out)"
      using False assms(7) arg by (simp add: on_nick_def Let_def)
    with st have st': "step s (Message ws (Parsed msg) tm rs) = Inr (?s2, ?out)" by simp
    have "Send ws (Error (quote @ newName @ quote @ '' is already taken.'')) \<notin> set ?out"
      by (simp add: error_not_broadcast)
    moreover have "map_of (clients ?s2) ws = Some newName" by (simp add: map_of_map_set)
    ultimately show ?thesis using st' False unfolding tk [symmetric] by blast
  qed
qed

theorem C4_nick_taken_by_anyone_witness:
  "active \<lparr>sessions = {''tok''}, clients = [(0, ''alice''), (1, ''bob'')],
            chatHistory = [], registered = {0, 1}, listening = {0, 1}, nextConn = 2\<rparr> 1
   \<and> split CHR '' '' (take 500 (trim ''/Nick ALICE'')) = [''/Nick'', ''ALICE'']
   \<and> toLowerCase (hd [''/Nick'', ''ALICE'']) = ''/nick''
   \<and> sanitize (if 1 < length [''/Nick'', ''ALICE''] then [''/Nick'', ''ALICE''] ! 1 else [])
       = ''ALICE''
   \<and> ''ALICE'' \<noteq> []
   \<and> (\<exists>kv\<in>set (clients \<lparr>sessions = {''tok''}, clients = [(0, ''alice''), (1, ''bob'')],
            chatHistory = [], registered = {0, 1}, listening = {0, 1}, nextConn = 2\<rparr>).
         toLowerCase (snd kv) = toLowerCase ''ALICE'')
   \<and> step \<lparr>sessions = {''tok''}, clients = [(0, ''alice''), (1, ''bob'')],
            chatHistory = [], registered = {0, 1}, listening = {0, 1}, nextConn = 2\<rparr>
          (Message 1 (chat_frame ''/Nick ALICE'') ''09:00:01'' all_open)
     = Inr (\<lparr>sessions = {''tok''}, clients = [(0, ''alice''), (1, ''bob'')],
            chatHistory = [], registered = {0, 1}, listening = {0, 1}, nextConn = 2\<rparr>,
            [Send 1 (Error (quote @ ''ALICE'' @ quote @ '' is already taken.''))])"
proof -
  let ?s = "\<lparr>sessions = {''tok''}, clients = [(0, ''alice''), (1, ''bob'')],
            chatHistory = [], registered = {0, 1}, listening = {0, 1}, nextConn = 2\<rparr>"
  let ?msg = "JObj [(''type'', JStr ''chat''), (''text'', JStr ''/Nick ALICE'')]"
  let ?parts = "[''/Nick'', ''ALICE'']"
  have a1: "active ?s 1" by (simp add: active_def)
  have a2: "get_prop ?msg ''type'' = Inr (Some (JStr ''chat''))" by simp
  have a3: "get_prop ?msg ''text'' = Inr (Some (JStr ''/Nick ALICE''))" by simp
  have a4: "?parts = split CHR '' '' (take 500 (trim ''/Nick ALICE''))"
    by (simp add: eval_defs)
  have a5: "toLowerCase (hd ?parts) = ''/nick''" by (simp add: eval_defs)
  have a6: "''ALICE'' = sanitize (if 1 < length ?parts then ?parts ! 1 else [])"
    by (simp add: eval_defs)
  have a7: "''ALICE'' \<noteq> []" by simp
  have tk: "\<exists>kv\<in>set (clients ?s). toLowerCase (snd kv) = toLowerCase ''ALICE''"
    by (simp add: eval_defs)
  from C4_nick_taken_by_anyone [OF a1 a2 a3 a4 a5 a6 a7, of "''09:00:01''" all_open] tk
  have "step ?s (Message 1 (Parsed ?msg) ''09:00:01'' all_open)
     = Inr (?s, [Send 1 (Error (quote @ ''ALICE'' @ quote @ '' is already taken.''))])"
    by blast
  then have "step ?s (Message 1 (chat_frame ''/Nick ALICE'') ''09:00:01'' all_open)
     = Inr (?s, [Send 1 (Error (quote @ ''ALICE'' @ quote @ '' is already taken.''))])"
    by (simp only: chat_frame_def)
  with a1 a4 [symmetric] a5 a6 [symmetric] a7 tk show ?thesis by blast
qed

subsection \<open>C5\<close>

text \<open>
  C5, as stated, fails: a second join frame on an active connection, with a name nobody
  holds, replaces the entry of that connection; its name changes without any /nick.
\<close>

theorem C5_counterexample:
  "run init [Issue ''tok'', Connect (Some ''tok''),
             Message 0 (join_frame ''alice'') ''09:00:00'' all_open]
     = Inr (\<lparr>sessions = {''tok''}, clients = [(0, ''alice'')],
             chatHistory = [System ''alice joined the room'' ''09:00:00''],
             registered = {0}, listening = {0}, nextConn = 1\<rparr>,
            [Send 0 (History []),
             Send 0 (Event (System ''alice joined the room'' ''09:00:00'')),
             Send 0 (Users [''alice''])])
   \<and> active \<lparr>sessions = {''tok''}, clients = [(0, ''alice'')],
             chatHistory = [System ''alice joined the room'' ''09:00:00''],
             registered = {0}, listening = {0}, nextConn = 1\<rparr> 0
   \<and> step \<lparr>sessions = {''tok''}, clients = [(0, ''alice'')],
             chatHistory = [System ''alice joined the room'' ''09:00:00''],
             registered = {0}, listening = {0}, nextConn = 1\<rparr>
          (Message 0 (join_frame ''bob'') ''09:00:01'' all_open)
     = Inr (\<lparr>sessions = {''tok''}, clients = [(0, ''bob'')],
             chatHistory = [System ''alice joined the room'' ''09:00:00'',
                            System ''bob joined the room'' ''09:00:01''],
             registered = {0}, listening = {0}, nextConn = 1\<rparr>,
            [Send 0 (History [System ''alice joined the room'' ''09:00:00'']),
             Send 0 (Event (System ''bob joined the room'' ''09:00:01'')),
             Send 0 (Users [''bob''])])"
  by (simp add: eval_defs active_def)

text \<open>
  C5, as the code has it. The name a registered connection holds is changed only by a
  frame arriving on that connection that is a /nick command or a join frame, and then
  to a name that nobody held, up to case; every other event, on this or on any other
  connection, leaves the entry as it is, except the close of the connection itself,
  which leaves it as it is or removes it, and removes it when the connection has
  listeners and its flag set.
\<close>

theorem C5_name_changes:
  assumes "map_of (clients s) c = Some name"
    and "step s e = Inr (s', out)"
  shows "(map_of (clients s') c = Some name
          \<or> (\<exists>tm rs. e = Close c tm rs \<and> map_of (clients s') c = None)
          \<or> (\<exists>raw tm rs n. e = Message c raw tm rs \<and> (is_join raw \<or> is_nick raw)
                 \<and> \<not> taken s n \<and> map_of (clients s') c = Some n))
         \<and> (c \<in> listening s \<and> c \<in> registered s \<longrightarrow>
              (\<exists>s1 out1. step s (Close c tm1 rs1) = Inr (s1, out1)
                 \<and> map_of (clients s1) c = None))"
proof (rule conjI)
  show "c \<in> listening s \<and> c \<in> registered s \<longrightarrow>
              (\<exists>s1 out1. step s (Close c tm1 rs1) = Inr (s1, out1)
                 \<and> map_of (clients s1) c = None)"
  proof
    assume a: "c \<in> listening s \<and> c \<in> registered s"
    with on_close_removes [of c s name tm1 rs1] assms(1) obtain s1 out1 where
      cl: "on_close s c tm1 rs1 = Inr (s1, out1)" and k: "clients s1 = map_delete c (clients s)"
      by blast
    from a cl have "step s (Close c tm1 rs1) = Inr (s1\<lparr>listening := listening s1 - {c}\<rparr>, out1)"
      by simp
    moreover have "map_of (clients (s1\<lparr>listening := listening s1 - {c}\<rparr>)) c = None"
      by (simp add: k map_of_map_delete_same)
    ultimately show "\<exists>s1 out1. step s (Close c tm1 rs1) = Inr (s1, out1)
                 \<and> map_of (clients s1) c = None"
      by blast
  qed
  show "map_of (clients s') c = Some name
          \<or> (\<exists>tm rs. e = Close c tm rs \<and> map_of (clients s') c = None)
          \<or> (\<exists>raw tm rs n. e = Message c raw tm rs \<and> (is_join raw \<or> is_nick raw)
                 \<and> \<not> taken s n \<and> map_of (clients s') c = Some n)"
  proof (cases e)
    case (Issue t)
    with assms show ?thesis by auto
  next
    case (Connect t)
    with assms show ?thesis by (auto simp: on_connection_def split: if_splits)
  next
    case (Message ws raw tm rs)
    show ?thesis
    proof (cases "ws \<in> listening s")
      case True
      with Message assms(2) have m: "on_message s ws raw tm rs = Inr (s', out)" by simp
      from on_message_rename [OF m] consider "clients s' = clients s"
        | n where "is_join raw \<or> is_nick raw" "\<not> taken s n"
            "clients s' = map_set ws n (clients s)"
        by blast
      then show ?thesis
      proof cases
        case 1
        with assms(1) show ?thesis by simp
      next
        case 2
        show ?thesis
        proof (cases "ws = c")
          case True
          with 2 Message show ?thesis by (simp add: map_of_map_set)
        next
          case False
          with 2 assms(1) show ?thesis by (simp add: map_of_map_set_other)
        qed
      qed
    next
      case False
      with Message assms show ?thesis by simp
    qed
  next
    case (Close ws tm rs)
    show ?thesis
    proof (cases "ws \<in> listening s")
      case True
      with Close assms(2) obtain s1 where cl: "on_close s ws tm rs = Inr (s1, out)"
        and s': "s' = s1\<lparr>listening := listening s1 - {ws}\<rparr>"
        by (auto split: sum.splits)
      from on_close_clients [OF cl] consider "clients s1 = clients s"
        | "clients s1 = map_delete ws (clients s)" by blast
      then show ?thesis
      proof cases
        case 1
        with assms(1) show ?thesis by (simp add: s')
      next
        case 2
        show ?thesis
        proof (cases "ws = c")
          case True
          with 2 Close show ?thesis by (simp add: s' map_of_map_delete_same)
        next
          case False
          with 2 assms(1) show ?thesis by (simp add: s' map_of_map_delete_other)
        qed
      qed
    next
      case False
      with Close assms show ?thesis by simp
    qed
  qed
qed

theorem C5_name_changes_witness:
  "map_of (clients \<lparr>sessions = {''tok''}, clients = [(0, ''alice''), (1, ''bob'')],
            chatHistory = [], registered = {0, 1}, listening = {0, 1}, nextConn = 2\<rparr>) 0 = Some ''alice''
   \<and> step \<lparr>sessions = {''tok''}, clients = [(0, ''alice''), (1, ''bob'')],
            chatHistory = [], registered = {0, 1}, listening = {0, 1}, nextConn = 2\<rparr>
          (Message 1 (join_frame ''carol'') ''09:00:01'' all_open)
     = Inr (\<lparr>sessions = {''tok''}, clients = [(0, ''alice''), (1, ''carol'')],
            chatHistory = [System ''carol joined the room'' ''09:00:01''],
            registered = {0, 1}, listening = {0, 1}, nextConn = 2\<rparr>,
            [Send 1 (History []),
            Send 0 (Event (System ''carol joined the room'' ''09:00:01'')),
            Send 1 (Event (System ''carol joined the room'' ''09:00:01'')),
            Send 0 (Users [''alice'', ''carol'']),
            Send 1 (Users [''alice'', ''carol''])])
   \<and> map_of (clients \<lparr>sessions = {''tok''}, clients = [(0, ''alice''), (1, ''carol'')],
            chatHistory = [System ''carol joined the room'' ''09:00:01''],
            registered = {0, 1}, listening = {0, 1}, nextConn = 2\<rparr>) 0 = Some ''alice''
   \<and> 0 \<in> listening \<lparr>sessions = {''tok''}, clients = [(0, ''alice''), (1, ''bob'')],
            chatHistory = [], registered = {0, 1}, listening = {0, 1}, nextConn = 2\<rparr>
   \<and> 0 \<in> registered \<lparr>sessions = {''tok''}, clients = [(0, ''alice''), (1, ''bob'')],
            chatHistory = [], registered = {0, 1}, listening = {0, 1}, nextConn = 2\<rparr>
   \<and> step \<lparr>sessions = {''tok''}, clients = [(0, ''alice''), (1, ''bob'')],
            chatHistory = [], registered = {0, 1}, listening = {0, 1}, nextConn = 2\<rparr>
          (Close 0 ''09:00:02'' all_open)
     = Inr (\<lparr>sessions = {''tok''}, clients = [(1, ''bob'')],
            chatHistory = [System ''alice left the room'' ''09:00:02''],
            registered = {0, 1}, listening = {1}, nextConn = 2\<rparr>,
            [Send 1 (Event (System ''alice left the room'' ''09:00:02'')),
            Send 1 (Users [''bob''])])
   \<and> map_of (clients \<lparr>sessions = {''tok''}, clients = [(1, ''bob'')],
            chatHistory = [System ''alice left the room'' ''09:00:02''],
            registered = {0, 1}, listening = {1}, nextConn = 2\<rparr>) 0 = None"
proof -
  let ?s = "\<lparr>sessions = {''tok''}, clients = [(0, ''alice''), (1, ''bob'')],
            chatHistory = [], registered = {0, 1}, listening = {0, 1}, nextConn = 2\<rparr>"
  let ?s1 = "\<lparr>sessions = {''tok''}, clients = [(0, ''alice''), (1, ''carol'')],
            chatHistory = [System ''carol joined the room'' ''09:00:01''],
            registered = {0, 1}, listening = {0, 1}, nextConn = 2\<rparr>"
  let ?o1 = "[Send 1 (History []),
            Send 0 (Event (System ''carol joined the room'' ''09:00:01'')),
            Send 1 (Event (System ''carol joined the room'' ''09:00:01'')),
            Send 0 (Users [''alice'', ''carol'']),
            Send 1 (Users [''alice'', ''carol''])]"
  let ?s2 = "\<lparr>sessions = {''tok''}, clients = [(1, ''bob'')],
            chatHistory = [System ''alice left the room'' ''09:00:02''],
            registered = {0, 1}, listening = {1}, nextConn = 2\<rparr>"
  let ?o2 = "[Send 1 (Event (System ''alice left the room'' ''09:00:02'')),
            Send 1 (Users [''bob''])]"
  have a1: "map_of (clients ?s) 0 = Some ''alice''" by simp
  have a2: "step ?s (Message 1 (join_frame ''carol'') ''09:00:01'' all_open) = Inr (?s1, ?o1)"
    by (simp add: eval_defs insert_commute)
  have a3: "0 \<in> listening ?s \<and> 0 \<in> registered ?s" by simp
  have a4: "step ?s (Close 0 ''09:00:02'' all_open) = Inr (?s2, ?o2)"
    by (simp add: eval_defs)
  note c = C5_name_changes [OF a1 a2, of "''09:00:02''" all_open]
  from conjunct1 [OF c] have g1: "map_of (clients ?s1) 0 = Some ''alice''" by simp
  from mp [OF conjunct2 [OF c] a3] a4 have g2: "map_of (clients ?s2) 0 = None" by simp
  from a1 a2 g1 a3 a4 g2 show ?thesis by blast
qed

subsection \<open>C6\<close>

text \<open>
  C6, where the code falls short: the handler is not total. On a connection that passed
  the handshake, a join frame whose username is a number, a chat frame from a joined
  connection whose text is a number, and the frame \<^verbatim>\<open>null\<close> each end in a TypeError
  that no handler catches. A frame that does not parse is dropped and changes nothing.
\<close>

theorem C6_type_errors_escape:
  "run init [Issue ''tok'', Connect (Some ''tok''),
             Message 0 (Parsed (JObj [(''type'', JStr ''join''), (''username'', JNum 42)]))
               ''09:00:00'' all_open]
     = Inl TypeError
   \<and> run init [Issue ''tok'', Connect (Some ''tok''),
               Message 0 (join_frame ''bob'') ''09:00:00'' all_open,
               Message 0 (Parsed (JObj [(''type'', JStr ''chat''), (''text'', JNum 7)]))
                 ''09:00:01'' all_open]
     = Inl TypeError
   \<and> run init [Issue ''tok'', Connect (Some ''tok''),
               Message 0 (Parsed JNull) ''09:00:00'' all_open]
     = Inl TypeError
   \<and> step s (Message ws Unparseable tm rs) = Inr (s, [])"
  by (simp add: eval_defs)

subsection \<open>C7\<close>

text \<open>
  C7. In any state the server can reach, a connection whose token parameter is absent or
  is not in the token store gets one error frame and is closed, and nothing else changes
  but the count of sockets accepted. Whatever happens afterwards, that socket is never
  in the registry and never has a listener, nothing more is ever sent to it, and a frame
  arriving on it changes nothing and sends nothing. The handshake leaves the token store
  as it is for every token; no event ever removes a token; and two connections
  presenting the same stored token are both accepted.
\<close>

theorem C7_rejected_connection:
  assumes "run init pre = Inr (s, outp)"
    and "token = None \<or> (\<exists>t. token = Some t \<and> t \<notin> sessions s)"
  shows "step s (Connect token)
           = Inr (s\<lparr>nextConn := Suc (nextConn s)\<rparr>,
                  [Send (nextConn s) (Error ''Auth required: must connect using launcher token''),
                   CloseSocket (nextConn s)])
         \<and> (run (s\<lparr>nextConn := Suc (nextConn s)\<rparr>) es = Inr (s', out) \<longrightarrow>
               nextConn s \<notin> fst ` set (clients s')
               \<and> nextConn s \<notin> listening s'
               \<and> (\<forall>ef\<in>set out. target ef \<noteq> nextConn s)
               \<and> step s' (Message (nextConn s) raw tm rs) = Inr (s', [])
               \<and> sessions s \<subseteq> sessions s')
         \<and> (\<exists>s2 out2. step s (Connect tk) = Inr (s2, out2) \<and> sessions s2 = sessions s)
         \<and> (tkn \<noteq> [] \<and> tkn \<in> sessions s \<longrightarrow>
               (\<exists>s2. run s [Connect (Some tkn), Connect (Some tkn)] = Inr (s2, [])
                     \<and> sessions s2 = sessions s
                     \<and> nextConn s \<in> listening s2 \<and> Suc (nextConn s) \<in> listening s2))"
proof (intro conjI impI)
  from assms(2) show "step s (Connect token)
           = Inr (s\<lparr>nextConn := Suc (nextConn s)\<rparr>,
                  [Send (nextConn s) (Error ''Auth required: must connect using launcher token''),
                   CloseSocket (nextConn s)])"
    by (auto simp: on_connection_def token_ok_def)
  have inv: "conn_inv s" using run_conn_inv [OF assms(1) conn_inv_init] .
  show "\<exists>s2 out2. step s (Connect tk) = Inr (s2, out2) \<and> sessions s2 = sessions s"
    by (simp add: on_connection_def)
  show "\<exists>s2. run s [Connect (Some tkn), Connect (Some tkn)] = Inr (s2, [])
             \<and> sessions s2 = sessions s
             \<and> nextConn s \<in> listening s2 \<and> Suc (nextConn s) \<in> listening s2"
    if "tkn \<noteq> [] \<and> tkn \<in> sessions s"
    using that by (simp add: on_connection_def token_ok_def)
  assume r: "run (s\<lparr>nextConn := Suc (nextConn s)\<rparr>) es = Inr (s', out)"
  let ?s1 = "s\<lparr>nextConn := Suc (nextConn s)\<rparr>"
  have inv1: "conn_inv ?s1" using inv by (rule conn_inv_next)
  have d1: "dead ?s1 (nextConn s)" using inv by (rule dead_next)
  from run_dead [OF r inv1 d1] have d': "dead s' (nextConn s)"
    and w: "sent_within (- {nextConn s}) out" by simp_all
  have inv': "conn_inv s'" using run_conn_inv [OF r inv1] .
  show "nextConn s \<notin> fst ` set (clients s')" using inv' d' by (rule dead_not_key)
  show "nextConn s \<notin> listening s'" using d' by (simp add: dead_def)
  then show "step s' (Message (nextConn s) raw tm rs) = Inr (s', [])" by simp
  show "\<forall>ef\<in>set out. target ef \<noteq> nextConn s"
    using w by (auto simp: sent_within_def list_all_iff)
  show "sessions s \<subseteq> sessions s'" using run_sessions [OF r] by simp
qed

theorem C7_rejected_connection_witness:
  "run init [Issue ''tok'', Connect (Some ''tok'')]
     = Inr (\<lparr>sessions = {''tok''}, clients = [], chatHistory = [], registered = {},
            listening = {0}, nextConn = 1\<rparr>, [])
   \<and> ''bad'' \<notin> sessions \<lparr>sessions = {''tok''}, clients = [], chatHistory = [], registered = {},
            listening = {0}, nextConn = 1\<rparr>
   \<and> step \<lparr>sessions = {''tok''}, clients = [], chatHistory = [], registered = {},
            listening = {0}, nextConn = 1\<rparr> (Connect (Some ''bad''))
     = Inr (\<lparr>sessions = {''tok''}, clients = [], chatHistory = [], registered = {},
            listening = {0}, nextConn = 2\<rparr>,
            [Send 1 (Error ''Auth required: must connect using launcher token''), CloseSocket 1])
   \<and> run \<lparr>sessions = {''tok''}, clients = [], chatHistory = [], registered = {},
            listening = {0}, nextConn = 2\<rparr>
         [Message 1 (join_frame ''eve'') ''09:00:00'' all_open,
          Message 0 (join_frame ''bob'') ''09:00:01'' all_open]
     = Inr (\<lparr>sessions = {''tok''}, clients = [(0, ''bob'')],
            chatHistory = [System ''bob joined the room'' ''09:00:01''],
            registered = {0}, listening = {0}, nextConn = 2\<rparr>,
           [Send 0 (History []),
            Send 0 (Event (System ''bob joined the room'' ''09:00:01'')),
            Send 0 (Users [''bob''])])
   \<and> 1 \<notin> fst ` set (clients \<lparr>sessions = {''tok''}, clients = [(0, ''bob'')],
            chatHistory = [System ''bob joined the room'' ''09:00:01''],
            registered = {0}, listening = {0}, nextConn = 2\<rparr>)
   \<and> 1 \<notin> listening \<lparr>sessions = {''tok''}, clients = [(0, ''bob'')],
            chatHistory = [System ''bob joined the room'' ''09:00:01''],
            registered = {0}, listening = {0}, nextConn = 2\<rparr>
   \<and> list_all (\<lambda>ef. target ef \<noteq> 1) [Send 0 (History []),
            Send 0 (Event (System ''bob joined the room'' ''09:00:01'')),
            Send 0 (Users [''bob''])]
   \<and> step \<lparr>sessions = {''tok''}, clients = [(0, ''bob'')],
            chatHistory = [System ''bob joined the room'' ''09:00:01''],
            registered = {0}, listening = {0}, nextConn = 2\<rparr> (Message 1 (join_frame ''eve'') ''09:00:02'' all_open)
     = Inr (\<lparr>sessions = {''tok''}, clients = [(0, ''bob'')],
            chatHistory = [System ''bob joined the room'' ''09:00:01''],
            registered = {0}, listening = {0}, nextConn = 2\<rparr>, [])
   \<and> ''tok'' \<noteq> [] \<and> ''tok'' \<in> sessions \<lparr>sessions = {''tok''}, clients = [], chatHistory = [], registered = {},
            listening = {0}, nextConn = 1\<rparr>
   \<and> run \<lparr>sessions = {''tok''}, clients = [], chatHistory = [], registered = {},
            listening = {0}, nextConn = 1\<rparr> [Connect (Some ''tok''), Connect (Some ''tok'')]
     = Inr (\<lparr>sessions = {''tok''}, clients = [], chatHistory = [], registered = {},
            listening = {2, 1, 0}, nextConn = 3\<rparr>, [])"
proof -
  let ?s = "\<lparr>sessions = {''tok''}, clients = [], chatHistory = [], registered = {},
            listening = {0}, nextConn = 1\<rparr>"
  let ?s1 = "\<lparr>sessions = {''tok''}, clients = [], chatHistory = [], registered = {},
            listening = {0}, nextConn = 2\<rparr>"
  let ?s2 = "\<lparr>sessions = {''tok''}, clients = [(0, ''bob'')],
            chatHistory = [System ''bob joined the room'' ''09:00:01''],
            registered = {0}, listening = {0}, nextConn = 2\<rparr>"
  let ?out = "[Send 0 (History []),
            Send 0 (Event (System ''bob joined the room'' ''09:00:01'')),
            Send 0 (Users [''bob''])]"
  let ?es = "[Message 1 (join_frame ''eve'') ''09:00:00'' all_open,
          Message 0 (join_frame ''bob'') ''09:00:01'' all_open]"
  have h1: "run init [Issue ''tok'', Connect (Some ''tok'')] = Inr (?s, [])"
    by (simp add: eval_defs)
  have h2: "Some ''bad'' = None \<or> (\<exists>t. Some ''bad'' = Some t \<and> t \<notin> sessions ?s)"
    by simp
  have e: "?s\<lparr>nextConn := Suc (nextConn ?s)\<rparr> = ?s1" by simp
  have h3': "run ?s1 ?es = Inr (?s2, ?out)"
    by (simp add: eval_defs)
  have h3: "run (?s\<lparr>nextConn := Suc (nextConn ?s)\<rparr>) ?es = Inr (?s2, ?out)"
    unfolding e by (rule h3')
  have h4: "run ?s [Connect (Some ''tok''), Connect (Some ''tok'')]
     = Inr (\<lparr>sessions = {''tok''}, clients = [], chatHistory = [], registered = {},
            listening = {2, 1, 0}, nextConn = 3\<rparr>, [])"
    by (simp add: eval_defs eval_nat_numeral)
  note c = C7_rejected_connection [where pre = "[Issue ''tok'', Connect (Some ''tok'')]"
         and s = ?s and outp = "[]" and token = "Some ''bad''" and es = ?es and s' = ?s2
         and out = ?out and raw = "join_frame ''eve''" and tm = "''09:00:02''"
         and rs = all_open and tk = "Some ''tok''" and tkn = "''tok''", OF h1 h2]
  have g1: "step ?s (Connect (Some ''bad''))
     = Inr (?s1, [Send 1 (Error ''Auth required: must connect using launcher token''),
                  CloseSocket 1])"
    using conjunct1 [OF c] by simp
  have g2: "1 \<notin> fst ` set (clients ?s2) \<and> 1 \<notin> listening ?s2
      \<and> (\<forall>ef\<in>set ?out. target ef \<noteq> 1)
      \<and> step ?s2 (Message 1 (join_frame ''eve'') ''09:00:02'' all_open) = Inr (?s2, [])"
    using mp [OF conjunct1 [OF conjunct2 [OF c]] h3] by simp
  have g0: "''bad'' \<notin> sessions ?s" "''tok'' \<noteq> []" "''tok'' \<in> sessions ?s" by simp_all
  from g0 h1 g1 h3' g2 h4 show ?thesis by (intro conjI) (rule h1 g1 h3' h4 | simp)+
qed

subsection \<open>C8\<close>

text \<open>
  C8. A chat frame whose text is empty or made of white space only changes nothing:
  the state after it is the state before it, registry and history included, and nothing
  is sent to anyone, the sender included.
\<close>

theorem C8_blank_chat_ignored:
  assumes "active s ws"
    and "get_prop msg ''type'' = Inr (Some (JStr ''chat''))"
    and "get_prop msg ''text'' = Inr (Some (JStr t))"
    and "\<forall>c\<in>set t. white c"
  shows "step s (Message ws (Parsed msg) tm rs) = Inr (s, [])"
proof -
  from assms(4) have d: "dropWhile white t = []" by (induction t) simp_all
  have "trim t = []" unfolding trim_def d by simp
  with assms(1-3) show ?thesis by (simp add: active_def on_message_def)
qed

theorem C8_blank_chat_ignored_witness:
  "active \<lparr>sessions = {''tok''}, clients = [(0, ''bob'')],
           chatHistory = [System ''bob joined the room'' ''09:00:00''],
           registered = {0}, listening = {0}, nextConn = 1\<rparr> 0
   \<and> list_all white ''  ''
   \<and> step \<lparr>sessions = {''tok''}, clients = [(0, ''bob'')],
            chatHistory = [System ''bob joined the room'' ''09:00:00''],
            registered = {0}, listening = {0}, nextConn = 1\<rparr>
          (Message 0 (chat_frame ''  '') ''09:00:01'' all_open)
     = Inr (\<lparr>sessions = {''tok''}, clients = [(0, ''bob'')],
            chatHistory = [System ''bob joined the room'' ''09:00:00''],
            registered = {0}, listening = {0}, nextConn = 1\<rparr>, [])"
proof -
  let ?s = "\<lparr>sessions = {''tok''}, clients = [(0, ''bob'')],
            chatHistory = [System ''bob joined the room'' ''09:00:00''],
            registered = {0}, listening = {0}, nextConn = 1\<rparr>"
  let ?msg = "JObj [(''type'', JStr ''chat''), (''text'', JStr ''  '')]"
  have a1: "active ?s 0" by (simp add: active_def)
  have a2: "get_prop ?msg ''type'' = Inr (Some (JStr ''chat''))" by simp
  have a3: "get_prop ?msg ''text'' = Inr (Some (JStr ''  ''))" by simp
  have a4: "\<forall>c\<in>set ''  ''. white c" by (simp add: white_def in_range_def)
  from C8_blank_chat_ignored [OF a1 a2 a3 a4, of "''09:00:01''" all_open] a1 a4
  show ?thesis by (simp add: chat_frame_def)
qed

subsection \<open>C9\<close>

text \<open>
  C9. A chat frame from an active connection whose trimmed text starts with a slash is
  never handled as plain chat: no frame sent carries a chat event, and the history is
  left as it was or gets one event that is not a chat event. When the first white-space
  separated token of the trimmed text, lowercased, is none of /help, /users, /me, /nick
  and /clear, the state is unchanged and the only frame sent is one error frame, to the
  sender, whose message is "Unknown command: " followed by the lowercased text up to its
  first space, of which that token (cut at 500 code units) is the beginning.
\<close>

theorem C9_commands_never_chat:
  assumes "active s ws"
    and "get_prop msg ''type'' = Inr (Some (JStr ''chat''))"
    and "get_prop msg ''text'' = Inr (Some (JStr t))"
    and "take 1 (trim t) = ''/''"
  shows "\<exists>s' out. step s (Message ws (Parsed msg) tm rs) = Inr (s', out)
           \<and> filter carries_chat out = []
           \<and> (chatHistory s' = chatHistory s
                \<or> (\<exists>e. \<not> is_chat e \<and> chatHistory s' = push_shift (chatHistory s) e))
           \<and> (toLowerCase (first_token (trim t)) \<notin> set commands \<longrightarrow>
                 s' = s
                 \<and> out = [Send ws (Error (''Unknown command: ''
                               @ toLowerCase (hd (split CHR '' '' (take 500 (trim t))))))]
                 \<and> (\<exists>rest. toLowerCase (hd (split CHR '' '' (take 500 (trim t))))
                            = toLowerCase (take 500 (first_token (trim t))) @ rest))"
proof -
  from active_name [OF assms(1)] obtain u where u: "map_of (clients s) ws = Some u" ..
  from assms(4) have ne: "trim t \<noteq> []" by auto
  from assms(4) have sl: "take 1 (take 500 (trim t)) = ''/''" by simp
  obtain s' out where c: "on_command s ws u (take 500 (trim t)) tm rs = (s', out)"
    by (cases "on_command s ws u (take 500 (trim t)) tm rs")
  have st: "step s (Message ws (Parsed msg) tm rs) = Inr (s', out)"
    using chat_frame_step [OF assms(1-3) ne, of tm rs] u sl c
    by (simp add: on_chat_def Let_def)
  from on_command_no_chat [OF c] have nc: "filter carries_chat out = []"
    and h: "no_chat_step (chatHistory s) (chatHistory s')" by simp_all
  have unk: "s' = s \<and> out = [Send ws (Error (''Unknown command: ''
                               @ toLowerCase (hd (split CHR '' '' (take 500 (trim t))))))]"
    if "toLowerCase (first_token (trim t)) \<notin> set commands"
    using on_command_unknown [OF unknown_command [OF that], of s ws u tm rs] c by simp
  from st nc h unk command_names_token [of "trim t"] show ?thesis
    unfolding no_chat_step_def by blast
qed

theorem C9_commands_never_chat_witness:
  "active \<lparr>sessions = {''tok''}, clients = [(0, ''bob'')],
           chatHistory = [System ''bob joined the room'' ''09:00:00''],
           registered = {0}, listening = {0}, nextConn = 1\<rparr> 0
   \<and> take 1 (trim '' /Dance now '') = ''/''
   \<and> toLowerCase (first_token (trim '' /Dance now '')) = ''/dance''
   \<and> ''/dance'' \<notin> set commands
   \<and> step \<lparr>sessions = {''tok''}, clients = [(0, ''bob'')],
            chatHistory = [System ''bob joined the room'' ''09:00:00''],
            registered = {0}, listening = {0}, nextConn = 1\<rparr>
          (Message 0 (chat_frame '' /Dance now '') ''09:00:01'' all_open)
     = Inr (\<lparr>sessions = {''tok''}, clients = [(0, ''bob'')],
            chatHistory = [System ''bob joined the room'' ''09:00:00''],
            registered = {0}, listening = {0}, nextConn = 1\<rparr>,
            [Send 0 (Error ''Unknown command: /dance'')])"
proof -
  let ?s = "\<lparr>sessions = {''tok''}, clients = [(0, ''bob'')],
            chatHistory = [System ''bob joined the room'' ''09:00:00''],
            registered = {0}, listening = {0}, nextConn = 1\<rparr>"
  let ?msg = "JObj [(''type'', JStr ''chat''), (''text'', JStr '' /Dance now '')]"
  have a1: "active ?s 0" by (simp add: active_def)
  have a2: "get_prop ?msg ''type'' = Inr (Some (JStr ''chat''))" by simp
  have a3: "get_prop ?msg ''text'' = Inr (Some (JStr '' /Dance now ''))" by simp
  have tr: "trim '' /Dance now '' = ''/Dance now''" by (simp add: eval_defs)
  have a4: "take 1 (trim '' /Dance now '') = ''/''" by (simp add: tr)
  have ft: "toLowerCase (first_token (trim '' /Dance now '')) = ''/dance''"
    by (simp add: tr first_token_def eval_defs)
  have nc: "''/dance'' \<notin> set commands" by (simp add: commands_def)
  have cmd: "toLowerCase (hd (split CHR '' '' (take 500 (trim '' /Dance now '')))) = ''/dance''"
    by (simp add: tr eval_defs)
  from C9_commands_never_chat [OF a1 a2 a3 a4, of "''09:00:01''" all_open]
  obtain s' out where st: "step ?s (Message 0 (Parsed ?msg) ''09:00:01'' all_open) = Inr (s', out)"
    and unk: "toLowerCase (first_token (trim '' /Dance now '')) \<notin> set commands \<longrightarrow>
                 s' = ?s
                 \<and> out = [Send 0 (Error (''Unknown command: ''
                       @ toLowerCase (hd (split CHR '' '' (take 500 (trim '' /Dance now ''))))))]"
    by blast
  from unk ft nc cmd have "s' = ?s" "out = [Send 0 (Error ''Unknown command: /dance'')]"
    by simp_all
  with st have "step ?s (Message 0 (chat_frame '' /Dance now '') ''09:00:01'' all_open)
     = Inr (?s, [Send 0 (Error ''Unknown command: /dance'')])"
    by (simp only: chat_frame_def)
  with a1 a4 ft nc show ?thesis by blast
qed

subsection \<open>C10\<close>

text \<open>
  C10, as stated, fails: a trimmed text of 501 code units that starts with a slash is
  handled as a command. Nothing is appended or broadcast, and the sender gets the error
  for an unknown command.
\<close>

theorem C10_counterexample:
  "active \<lparr>sessions = {''tok''}, clients = [(0, ''bob'')],
           chatHistory = [System ''bob joined the room'' ''09:00:00''],
           registered = {0}, listening = {0}, nextConn = 1\<rparr> 0
   \<and> length (trim (CHR ''/'' # replicate 500 CHR ''x'')) = 501
   \<and> step \<lparr>sessions = {''tok''}, clients = [(0, ''bob'')],
            chatHistory = [System ''bob joined the room'' ''09:00:00''],
            registered = {0}, listening = {0}, nextConn = 1\<rparr>
          (Message 0 (chat_frame (CHR ''/'' # replicate 500 CHR ''x'')) ''09:00:01'' all_open)
     = Inr (\<lparr>sessions = {''tok''}, clients = [(0, ''bob'')],
            chatHistory = [System ''bob joined the room'' ''09:00:00''],
            registered = {0}, listening = {0}, nextConn = 1\<rparr>,
            [Send 0 (Error (''Unknown command: /'' @ replicate 499 CHR ''x''))])"
proof -
  let ?s = "\<lparr>sessions = {''tok''}, clients = [(0, ''bob'')],
            chatHistory = [System ''bob joined the room'' ''09:00:00''],
            registered = {0}, listening = {0}, nextConn = 1\<rparr>"
  let ?t = "CHR ''/'' # replicate 500 CHR ''x''"
  let ?text = "CHR ''/'' # replicate 499 CHR ''x''"
  let ?msg = "JObj [(''type'', JStr ''chat''), (''text'', JStr ?t)]"
  have a1: "active ?s 0" by (simp add: active_def)
  have a2: "get_prop ?msg ''type'' = Inr (Some (JStr ''chat''))" by simp
  have a3: "get_prop ?msg ''text'' = Inr (Some (JStr ?t))" by simp
  have len: "length (trim ?t) = 501" by (simp add: long_cmd)
  have ne: "trim ?t \<noteq> []" by (simp add: long_cmd)
  have tk: "take 500 (trim ?t) = ?text" by (simp add: long_cmd take_Cons' take_replicate)
  have sp: "split CHR '' '' ?text = [?text]" by (rule split_no_sep) simp
  have lx: "lower_char CHR ''x'' = CHR ''x''" "lower_char CHR ''/'' = CHR ''/''"
    by (simp_all add: lower_char_def in_range_def)
  have lo: "toLowerCase ?text = ?text" by (simp add: toLowerCase_def lx)
  have cmd: "toLowerCase (hd (split CHR '' '' ?text)) = ?text"
    by (simp add: sp lo del: split.simps)
  have "length (toLowerCase (hd (split CHR '' '' ?text))) = 500"
    by (simp only: cmd) simp
  then have unk: "toLowerCase (hd (split CHR '' '' ?text)) \<notin> set commands"
    by (auto simp: commands_def)
  have "on_chat ?s 0 ?t ''09:00:01'' all_open
          = Inr (?s, [Send 0 (Error (''Unknown command: '' @ ?text))])"
    using on_command_unknown [OF unk, of ?s 0 "''bob''" "''09:00:01''" all_open]
    by (simp add: on_chat_def tk cmd del: split.simps)
  with chat_frame_step [OF a1 a2 a3 ne, of "''09:00:01''" all_open]
  have "step ?s (Message 0 (chat_frame ?t) ''09:00:01'' all_open)
          = Inr (?s, [Send 0 (Error (''Unknown command: /'' @ replicate 499 CHR ''x''))])"
    by (simp add: chat_frame_def)
  with a1 len show ?thesis by blast
qed

text \<open>
  C10, as the code has it. A chat frame from an active connection whose trimmed text is
  longer than 500 code units and does not start with a slash is not rejected and draws
  no error: one chat event is appended to the history and broadcast to every registered
  connection whose socket is open, and its text is exactly the first 500 code units of
  the trimmed text. In every run, every chat event in the history and every chat event
  sent, alone or inside a history frame, has a text of at most 500 code units.
\<close>

theorem C10_long_chat_truncated:
  assumes "active s ws"
    and "get_prop msg ''type'' = Inr (Some (JStr ''chat''))"
    and "get_prop msg ''text'' = Inr (Some (JStr t))"
    and "500 < length (trim t)"
    and "take 1 (trim t) \<noteq> ''/''"
  shows "(\<exists>u. map_of (clients s) ws = Some u
            \<and> step s (Message ws (Parsed msg) tm rs)
                = Inr (s\<lparr>chatHistory := push_shift (chatHistory s)
                                           (Chat u (take 500 (trim t)) tm)\<rparr>,
                       broadcast rs s (Event (Chat u (take 500 (trim t)) tm)) None))
         \<and> length (take 500 (trim t)) = 500
         \<and> (run init es = Inr (s1, out1) \<longrightarrow>
              list_all text_ok (chatHistory s1) \<and> list_all effect_ok out1)"
proof (intro conjI impI)
  from active_name [OF assms(1)] obtain u where u: "map_of (clients s) ws = Some u" ..
  from assms(4) have ne: "trim t \<noteq> []" by (cases "trim t") simp_all
  from assms(5) have sl: "take 1 (take 500 (trim t)) \<noteq> ''/''" by simp
  have "step s (Message ws (Parsed msg) tm rs)
          = Inr (s\<lparr>chatHistory := push_shift (chatHistory s) (Chat u (take 500 (trim t)) tm)\<rparr>,
                 broadcast rs s (Event (Chat u (take 500 (trim t)) tm)) None)"
    using chat_frame_step [OF assms(1-3) ne, of tm rs] u sl
    by (simp add: on_chat_def Let_def broadcast_hist)
  with u show "\<exists>u. map_of (clients s) ws = Some u
            \<and> step s (Message ws (Parsed msg) tm rs)
                = Inr (s\<lparr>chatHistory := push_shift (chatHistory s)
                                           (Chat u (take 500 (trim t)) tm)\<rparr>,
                       broadcast rs s (Event (Chat u (take 500 (trim t)) tm)) None)"
    by blast
  from assms(4) show "length (take 500 (trim t)) = 500" by simp
  assume r: "run init es = Inr (s1, out1)"
  have "list_all text_ok (chatHistory init)" by (simp add: init_def)
  from run_ok [OF r this]
  show "list_all text_ok (chatHistory s1)" and "list_all effect_ok out1" by simp_all
qed

theorem C10_long_chat_truncated_witness:
  "active \<lparr>sessions = {''tok''}, clients = [(0, ''bob'')],
           chatHistory = [System ''bob joined the room'' ''09:00:00''],
           registered = {0}, listening = {0}, nextConn = 1\<rparr> 0
   \<and> 500 < length (trim (replicate 501 CHR ''x''))
   \<and> take 1 (trim (replicate 501 CHR ''x'')) \<noteq> ''/''
   \<and> step \<lparr>sessions = {''tok''}, clients = [(0, ''bob'')],
            chatHistory = [System ''bob joined the room'' ''09:00:00''],
            registered = {0}, listening = {0}, nextConn = 1\<rparr>
          (Message 0 (chat_frame (replicate 501 CHR ''x'')) ''09:00:01'' all_open)
     = Inr (\<lparr>sessions = {''tok''}, clients = [(0, ''bob'')],
            chatHistory = [System ''bob joined the room'' ''09:00:00'',
                           Chat ''bob'' (replicate 500 CHR ''x'') ''09:00:01''],
            registered = {0}, listening = {0}, nextConn = 1\<rparr>,
            [Send 0 (Event (Chat ''bob'' (replicate 500 CHR ''x'') ''09:00:01''))])
   \<and> run init [Issue ''tok'', Connect (Some ''tok''),
                 Message 0 (join_frame ''bob'') ''09:00:00'' all_open,
                 Message 0 (chat_frame ''hi'') ''09:00:01'' all_open]
     = Inr (\<lparr>sessions = {''tok''}, clients = [(0, ''bob'')],
            chatHistory = [System ''bob joined the room'' ''09:00:00'',
                           Chat ''bob'' ''hi'' ''09:00:01''],
            registered = {0}, listening = {0}, nextConn = 1\<rparr>,
            [Send 0 (History []),
             Send 0 (Event (System ''bob joined the room'' ''09:00:00'')),
             Send 0 (Users [''bob'']),
             Send 0 (Event (Chat ''bob'' ''hi'' ''09:00:01''))])
   \<and> list_all text_ok [System ''bob joined the room'' ''09:00:00'',
                         Chat ''bob'' ''hi'' ''09:00:01'']
   \<and> list_all effect_ok [Send 0 (History []),
             Send 0 (Event (System ''bob joined the room'' ''09:00:00'')),
             Send 0 (Users [''bob'']),
             Send 0 (Event (Chat ''bob'' ''hi'' ''09:00:01''))]"
proof -
  let ?s = "\<lparr>sessions = {''tok''}, clients = [(0, ''bob'')],
            chatHistory = [System ''bob joined the room'' ''09:00:00''],
            registered = {0}, listening = {0}, nextConn = 1\<rparr>"
  let ?t = "replicate 501 CHR ''x''"
  let ?msg = "JObj [(''type'', JStr ''chat''), (''text'', JStr ?t)]"
  let ?es = "[Issue ''tok'', Connect (Some ''tok''),
                 Message 0 (join_frame ''bob'') ''09:00:00'' all_open,
                 Message 0 (chat_frame ''hi'') ''09:00:01'' all_open]"
  let ?s1 = "\<lparr>sessions = {''tok''}, clients = [(0, ''bob'')],
            chatHistory = [System ''bob joined the room'' ''09:00:00'',
                           Chat ''bob'' ''hi'' ''09:00:01''],
            registered = {0}, listening = {0}, nextConn = 1\<rparr>"
  let ?out1 = "[Send 0 (History []),
             Send 0 (Event (System ''bob joined the room'' ''09:00:00'')),
             Send 0 (Users [''bob'']),
             Send 0 (Event (Chat ''bob'' ''hi'' ''09:00:01''))]"
  have a1: "active ?s 0" by (simp add: active_def)
  have a2: "get_prop ?msg ''type'' = Inr (Some (JStr ''chat''))" by simp
  have a3: "get_prop ?msg ''text'' = Inr (Some (JStr ?t))" by simp
  have a4: "500 < length (trim ?t)" by (simp add: long_text)
  have t1: "take 1 ?t = ''x''" by (simp add: take_replicate)
  have a5: "take 1 (trim ?t) \<noteq> ''/''" by (simp only: long_text t1) simp
  have r: "run init ?es = Inr (?s1, ?out1)" by (simp add: eval_defs)
  note c = C10_long_chat_truncated [OF a1 a2 a3 a4 a5, of "''09:00:01''" all_open ?es ?s1 ?out1]
  from conjunct1 [OF c]
  have st: "step ?s (Message 0 (chat_frame ?t) ''09:00:01'' all_open)
     = Inr (\<lparr>sessions = {''tok''}, clients = [(0, ''bob'')],
            chatHistory = [System ''bob joined the room'' ''09:00:00'',
                           Chat ''bob'' (replicate 500 CHR ''x'') ''09:00:01''],
            registered = {0}, listening = {0}, nextConn = 1\<rparr>,
            [Send 0 (Event (Chat ''bob'' (replicate 500 CHR ''x'') ''09:00:01''))])"
    by (simp add: long_text take_replicate chat_frame_def push_shift_def MAX_HISTORY_def
          broadcast_def all_open_def)
  from mp [OF conjunct2 [OF conjunct2 [OF c]] r]
  have ok: "list_all text_ok (chatHistory ?s1) \<and> list_all effect_ok ?out1" .
  from a1 a4 a5 st r ok show ?thesis by simp
qed

end
